theory Spec2Isabelle
  imports Complex_Main "HOL-Library.AList"
begin

section \<open>Data model (shared/schema.ts)\<close>

text \<open>
  A row of the \<open>conversions\<close> table, type \<open>Conversion\<close>. Columns declared without
  \<open>notNull()\<close> are nullable: \<open>None\<close> is JavaScript's \<open>null\<close>. The status column is
  \<open>text\<close>, so it is a string here as well. Timestamps are milliseconds since the epoch.
  The column \<open>id\<close> is named \<open>conv_id\<close>, since \<open>id\<close> is the identity function of HOL.
\<close>

record conversion =
  conv_id :: int
  url :: string
  title :: "string option"
  status :: string
  progress :: "int option"
  filePath :: "string option"
  fileName :: "string option"
  fileSize :: "int option"
  errorMessage :: "string option"
  createdAt :: "int option"
  completedAt :: "int option"

text \<open>
  \<open>Partial<Conversion>\<close>: every key may be missing. \<open>None\<close> is a key that the object
  does not have; \<open>Some v\<close> is a key with the value \<open>v\<close> (which is itself \<open>None\<close> for an
  explicit \<open>null\<close> in a nullable column).
\<close>

record partial_conversion =
  p_id :: "int option"
  p_url :: "string option"
  p_title :: "string option option"
  p_status :: "string option"
  p_progress :: "int option option"
  p_filePath :: "string option option"
  p_fileName :: "string option option"
  p_fileSize :: "int option option"
  p_errorMessage :: "string option option"
  p_createdAt :: "int option option"
  p_completedAt :: "int option option"

text \<open>The object literal \<open>{}\<close>: no key at all.\<close>

definition no_updates :: partial_conversion where
  "no_updates = \<lparr>p_id = None, p_url = None, p_title = None, p_status = None,
     p_progress = None, p_filePath = None, p_fileName = None, p_fileSize = None,
     p_errorMessage = None, p_createdAt = None, p_completedAt = None\<rparr>"

text \<open>One key of the spread \<open>{ ...existing, ...updates }\<close>: a key of \<open>updates\<close> wins.\<close>

definition spread_key :: "'a \<Rightarrow> 'a option \<Rightarrow> 'a" where
  "spread_key old new = (case new of None \<Rightarrow> old | Some v \<Rightarrow> v)"

definition spread :: "conversion \<Rightarrow> partial_conversion \<Rightarrow> conversion" where
  "spread existing updates =
     \<lparr>conv_id = spread_key (conv_id existing) (p_id updates),
      url = spread_key (url existing) (p_url updates),
      title = spread_key (title existing) (p_title updates),
      status = spread_key (status existing) (p_status updates),
      progress = spread_key (progress existing) (p_progress updates),
      filePath = spread_key (filePath existing) (p_filePath updates),
      fileName = spread_key (fileName existing) (p_fileName updates),
      fileSize = spread_key (fileSize existing) (p_fileSize updates),
      errorMessage = spread_key (errorMessage existing) (p_errorMessage updates),
      createdAt = spread_key (createdAt existing) (p_createdAt updates),
      completedAt = spread_key (completedAt existing) (p_completedAt updates)\<rparr>"

section \<open>The job store (server/storage.ts, class MemStorage)\<close>

text \<open>
  The \<open>conversions\<close> field is a JavaScript \<open>Map\<close>: an association list in insertion
  order with one entry per key. \<open>Map.set\<close> replaces the value of a key in place or
  appends a new key (\<open>AList.update\<close>), \<open>Map.delete\<close> removes the key and tells whether
  it was there. The users of the store are not touched by any conversion operation and
  are left out.
\<close>

record mem_storage =
  conversions :: "(int \<times> conversion) list"
  currentConversionId :: int

definition new_MemStorage :: mem_storage where
  "new_MemStorage = \<lparr>conversions = [], currentConversionId = 1\<rparr>"

text \<open>\<open>createConversion\<close>; \<open>now\<close> is the value of \<open>new Date()\<close>.\<close>

definition createConversion :: "mem_storage \<Rightarrow> string \<Rightarrow> int \<Rightarrow> conversion \<times> mem_storage" where
  "createConversion s insert_url now =
     (let ident = currentConversionId s;
          conversion = \<lparr>conv_id = ident, url = insert_url, title = None,
            status = ''pending'', progress = Some 0, filePath = None, fileName = None,
            fileSize = None, errorMessage = None, createdAt = Some now,
            completedAt = None\<rparr>
      in (conversion,
          \<lparr>conversions = AList.update ident conversion (conversions s),
           currentConversionId = ident + 1\<rparr>))"

definition getConversion :: "mem_storage \<Rightarrow> int \<Rightarrow> conversion option" where
  "getConversion s k = map_of (conversions s) k"

definition updateConversion ::
    "mem_storage \<Rightarrow> int \<Rightarrow> partial_conversion \<Rightarrow> conversion option \<times> mem_storage" where
  "updateConversion s k updates =
     (case map_of (conversions s) k of
        None \<Rightarrow> (None, s)
      | Some existing \<Rightarrow>
          (let updated = spread existing updates
           in (Some updated, s\<lparr>conversions := AList.update k updated (conversions s)\<rparr>)))"

definition deleteConversion :: "mem_storage \<Rightarrow> int \<Rightarrow> bool \<times> mem_storage" where
  "deleteConversion s k =
     (k \<in> fst ` set (conversions s), s\<lparr>conversions := AList.delete k (conversions s)\<rparr>)"

definition getConversionsByStatus :: "mem_storage \<Rightarrow> string \<Rightarrow> conversion list" where
  "getConversionsByStatus s st = filter (\<lambda>c. status c = st) (map snd (conversions s))"

text \<open>
  \<open>getAllConversions\<close>: the values sorted by creation time, most recent first. The
  comparator reads a missing \<open>createdAt\<close> as 0, and \<open>Array.prototype.sort\<close> is stable.
\<close>

definition created_time :: "conversion \<Rightarrow> int" where
  "created_time c = (case createdAt c of None \<Rightarrow> 0 | Some t \<Rightarrow> t)"

definition getAllConversions :: "mem_storage \<Rightarrow> conversion list" where
  "getAllConversions s = sort_key (\<lambda>c. - created_time c) (map snd (conversions s))"

text \<open>A sequence of \<open>updateConversion\<close> calls for one id, with what each call returned.\<close>

fun update_all ::
    "mem_storage \<Rightarrow> int \<Rightarrow> partial_conversion list \<Rightarrow> conversion option list \<times> mem_storage" where
  "update_all s k [] = ([], s)"
| "update_all s k (u # us) =
     (let (r, s') = updateConversion s k u; (rs, s'') = update_all s' k us
      in (r # rs, s''))"

section \<open>The conversion pipeline (server/routes.ts, processConversion)\<close>

subsection \<open>What the external collaborators deliver\<close>

text \<open>
  A call of a collaborator (\<open>ytdl.getInfo\<close>, \<open>ytdl\<close>, \<open>ffmpeg\<close>, \<open>fs.stat\<close>) either
  returns or throws. The \<open>catch\<close> block reads the message of a thrown \<open>Error\<close> and
  writes a fixed text for any other thrown value.
\<close>

datatype js_thrown = Error string | NotAnError

datatype 'a attempt = Throws js_thrown | Returns 'a

text \<open>
  \<open>progress.percent\<close> of an ffmpeg progress event: a JavaScript number or
  \<open>undefined\<close>. A finite double is a real number here; \<open>Math.round\<close> is exact on
  doubles, so nothing is lost.
\<close>

datatype js_percent = Undefined | NaN | PosInfinity | NegInfinity | Number real

text \<open>
  One run of the pipeline, as the collaborators determine it: the outcome of
  \<open>ytdl.getInfo\<close> (the raw title), the reading of \<open>Date.now()\<close>, the progress
  events that ffmpeg emits before it ends, how the download and transcoding end
  (\<open>end\<close>, or \<open>error\<close> and a throwing \<open>ytdl\<close> call), the outcome of \<open>fs.stat\<close>
  (the size), and the \<open>new Date()\<close> of the completion. ffmpeg emits \<open>progress\<close>
  while it reads the encoder's output and \<open>end\<close> or \<open>error\<close> after that, and
  \<open>MemStorage.updateConversion\<close> writes before its first suspension, so the progress
  writes precede the terminal one.
\<close>

record run =
  getInfo :: "string attempt"
  date_now :: int
  progress_events :: "js_percent list"
  transcode :: "unit attempt"
  stat_size :: "int attempt"
  completed_date :: int

subsection \<open>Strings\<close>

text \<open>A number in a template literal: its decimal digits.\<close>

fun digits :: "nat \<Rightarrow> string" where
  "digits n =
     (if n < 10 then [char_of (48 + n)] else digits (n div 10) @ [char_of (48 + n mod 10)])"

declare digits.simps [simp del]

definition js_string :: "int \<Rightarrow> string" where
  "js_string i = (if i < 0 then CHR ''-'' # digits (nat (- i)) else digits (nat i))"

text \<open>
  \<open>title.replace(/[^\w\s-]/g, "").trim()\<close>. A character here is a code unit below
  256 (Latin-1 text). \<open>\w\<close> is an ASCII letter, a digit or the underscore; \<open>\s\<close>, and
  the white space that \<open>trim\<close> strips, is a space, tab, line feed, vertical tab, form
  feed, carriage return or no-break space (U+00A0). The white space beyond U+00FF is
  outside this model of strings.
\<close>

definition word_char :: "char \<Rightarrow> bool" where
  "word_char c =
     (let n = of_char c :: nat
      in (48 \<le> n \<and> n \<le> 57) \<or> (65 \<le> n \<and> n \<le> 90) \<or> (97 \<le> n \<and> n \<le> 122) \<or> n = 95)"

definition space_char :: "char \<Rightarrow> bool" where
  "space_char c = (let n = of_char c :: nat in n = 32 \<or> (9 \<le> n \<and> n \<le> 13) \<or> n = 160)"

definition trim :: "string \<Rightarrow> string" where
  "trim t = rev (dropWhile space_char (rev (dropWhile space_char t)))"

definition sanitize :: "string \<Rightarrow> string" where
  "sanitize t = trim (filter (\<lambda>c. word_char c \<or> space_char c \<or> c = CHR ''-'') t)"

subsection \<open>The progress percentage\<close>

text \<open>\<open>Math.round\<close> of a finite number: the nearest integer, a tie goes up.\<close>

definition Math_round :: "real \<Rightarrow> int" where
  "Math_round x = \<lfloor>x + 1 / 2\<rfloor>"

text \<open>
  \<open>Math.min(Math.max(Math.round(progress.percent || 0), 15), 95)\<close>. \<open>undefined\<close> and
  \<open>NaN\<close> are falsy, so \<open>||\<close> replaces them by 0 (as it does 0 itself).
  \<open>Math.round\<close> leaves an infinity as it is: \<open>Math.max(Infinity, 15)\<close> is
  \<open>Infinity\<close> and \<open>Math.min(Infinity, 95)\<close> is 95; \<open>Math.max(-Infinity, 15)\<close> is 15.
\<close>

fun percentage :: "js_percent \<Rightarrow> int" where
  "percentage Undefined = min (max (Math_round 0) 15) 95"
| "percentage NaN = min (max (Math_round 0) 15) 95"
| "percentage (Number x) = min (max (Math_round x) 15) 95"
| "percentage PosInfinity = 95"
| "percentage NegInfinity = 15"

subsection \<open>The writes of one run\<close>

text \<open>The four object literals that \<open>processConversion\<close> passes to \<open>updateConversion\<close>.\<close>

definition upd_processing :: partial_conversion where
  "upd_processing = no_updates\<lparr>p_status := Some ''processing'', p_progress := Some (Some 5)\<rparr>"

definition upd_title :: "string \<Rightarrow> partial_conversion" where
  "upd_title t = no_updates\<lparr>p_title := Some (Some t), p_progress := Some (Some 15)\<rparr>"

definition upd_progress :: "int \<Rightarrow> partial_conversion" where
  "upd_progress n = no_updates\<lparr>p_progress := Some (Some n)\<rparr>"

definition upd_completed :: "string \<Rightarrow> string \<Rightarrow> int \<Rightarrow> int \<Rightarrow> partial_conversion" where
  "upd_completed path name bytes finished = no_updates\<lparr>p_status := Some ''completed'',
     p_progress := Some (Some 100), p_filePath := Some (Some path),
     p_fileName := Some (Some name), p_fileSize := Some (Some bytes),
     p_completedAt := Some (Some finished)\<rparr>"

definition error_text :: "js_thrown \<Rightarrow> string" where
  "error_text e = (case e of Error m \<Rightarrow> m | NotAnError \<Rightarrow> ''Unknown error occurred'')"

definition upd_failed :: "js_thrown \<Rightarrow> partial_conversion" where
  "upd_failed e = no_updates\<lparr>p_status := Some ''failed'',
     p_errorMessage := Some (Some (error_text e))\<rparr>"

text \<open>
  The \<open>updateConversion\<close> calls of \<open>processConversion\<close> after it has found the job, in
  the order in which it makes them. An exception anywhere in the \<open>try\<close> block goes to
  the \<open>catch\<close> block, which writes the failure.
\<close>

definition after_info :: "run \<Rightarrow> int \<Rightarrow> string \<Rightarrow> partial_conversion list" where
  "after_info r conversionId t =
     (let fileName = t @ ''_'' @ js_string conversionId @ ''.mp3'';
          filePath = js_string conversionId @ ''_'' @ js_string (date_now r) @ ''.mp3''
      in map (\<lambda>p. upd_progress (percentage p)) (progress_events r) @
         (case transcode r of
            Throws e \<Rightarrow> [upd_failed e]
          | Returns _ \<Rightarrow>
             (case stat_size r of
                Throws e \<Rightarrow> [upd_failed e]
              | Returns bytes \<Rightarrow> [upd_completed filePath fileName bytes (completed_date r)])))"

definition pipeline_updates :: "run \<Rightarrow> int \<Rightarrow> partial_conversion list" where
  "pipeline_updates r conversionId =
     upd_processing #
     (case getInfo r of
        Throws e \<Rightarrow> [upd_failed e]
      | Returns raw \<Rightarrow>
          (let t = sanitize raw in upd_title t # after_info r conversionId t))"

text \<open>\<open>processConversion\<close> run from its call to its return, nothing else in between.\<close>

definition processConversion :: "run \<Rightarrow> mem_storage \<Rightarrow> int \<Rightarrow> mem_storage" where
  "processConversion r s conversionId =
     (case getConversion s conversionId of
        None \<Rightarrow> s
      | Some conversion \<Rightarrow> snd (update_all s conversionId (pipeline_updates r conversionId)))"

section \<open>The routes (server/routes.ts, registerRoutes)\<close>

text \<open>
  What a handler sends: \<open>res.json\<close> of conversions or of a message (status 200),
  \<open>res.status(n).json({ message })\<close>, or the zip archive with its entries (the
  storage key of the file under the downloads directory, and the entry's name).
\<close>

datatype reply =
  Json_conversions "conversion list"
| Json_message string
| Failure nat string
| Zip_archive "(string \<times> string) list"

text \<open>
  \<open>bulkConversionSchema\<close>: between 1 and 10 strings, each a URL for zod. The URL
  test of zod and \<open>ytdl.validateURL\<close> belong to libraries; they are parameters.
\<close>

definition bulkConversionSchema :: "(string \<Rightarrow> bool) \<Rightarrow> string list \<Rightarrow> bool" where
  "bulkConversionSchema is_url urls =
     (list_all is_url urls \<and> 1 \<le> length urls \<and> length urls \<le> 10)"

text \<open>
  \<open>POST /api/conversions\<close>. A handler returns its reply, the store, and the ids for
  which it has called \<open>processConversion\<close>.
\<close>

definition post_conversions ::
    "(string \<Rightarrow> bool) \<Rightarrow> mem_storage \<Rightarrow> string \<Rightarrow> int \<Rightarrow> reply \<times> mem_storage \<times> int list" where
  "post_conversions validateURL s u now =
     (if \<not> validateURL u then (Failure 400 ''Invalid YouTube URL'', s, [])
      else (let (conversion, s') = createConversion s u now
            in (Json_conversions [conversion], s', [conv_id conversion])))"

text \<open>
  \<open>POST /api/conversions/bulk\<close>: the loop over \<open>validatedData.urls\<close>. Each URL comes
  with the \<open>new Date()\<close> that its \<open>createConversion\<close> would read; \<open>created\<close> is the
  array \<open>conversions\<close> of the handler. The handler suspends at
  \<open>await storage.createConversion\<close>, after the job is in the store; the pipeline
  that the iteration before has started, suspended at its \<open>getConversion\<close>, runs then
  and makes its first write, before the handler goes on. So the store of the reply has
  the jobs before the last one in processing with progress 5, while the records of the
  reply are the ones that \<open>createConversion\<close> returned. A URL that is rejected ends the
  loop with no suspension.
\<close>

fun bulk_loop ::
    "(string \<Rightarrow> bool) \<Rightarrow> mem_storage \<Rightarrow> (string \<times> int) list \<Rightarrow> conversion list \<Rightarrow>
     reply \<times> mem_storage \<times> int list" where
  "bulk_loop validateURL s [] created = (Json_conversions created, s, map conv_id created)"
| "bulk_loop validateURL s ((u, now) # rest) created =
     (if \<not> validateURL u
      then (Failure 400 (''Invalid YouTube URL: '' @ u), s, map conv_id created)
      else (let (conversion, s') = createConversion s u now;
                s'' = (if created = [] then s'
                       else snd (updateConversion s' (conv_id (last created)) upd_processing))
            in bulk_loop validateURL s'' rest (created @ [conversion])))"

definition post_conversions_bulk ::
    "(string \<Rightarrow> bool) \<Rightarrow> (string \<Rightarrow> bool) \<Rightarrow> mem_storage \<Rightarrow> (string \<times> int) list \<Rightarrow>
     reply \<times> mem_storage \<times> int list" where
  "post_conversions_bulk is_url validateURL s urls =
     (if \<not> bulkConversionSchema is_url (map fst urls)
      then (Failure 400 ''Invalid request data'', s, [])
      else bulk_loop validateURL s urls [])"

text \<open>
  \<open>POST /api/download/bulk\<close>. The body's \<open>ids\<close> is \<open>None\<close> when it is not an array;
  an element is the result of \<open>parseInt\<close>, \<open>None\<close> for \<open>NaN\<close>, which is the key of no
  job. \<open>file_exists\<close> is \<open>fs.pathExists\<close> on the storage key.
\<close>

definition lookup :: "mem_storage \<Rightarrow> int option \<Rightarrow> conversion option" where
  "lookup s i = (case i of None \<Rightarrow> None | Some k \<Rightarrow> getConversion s k)"

definition valid_conversion :: "conversion option \<Rightarrow> bool" where
  "valid_conversion conv =
     (case conv of None \<Rightarrow> False | Some c \<Rightarrow> status c = ''completed'' \<and> filePath c \<noteq> None)"

definition entry_name :: "conversion \<Rightarrow> string" where
  "entry_name c =
     (case fileName c of None \<Rightarrow> ''audio.mp3'' | Some n \<Rightarrow> if n = [] then ''audio.mp3'' else n)"

fun archive_files :: "(string \<Rightarrow> bool) \<Rightarrow> conversion option list \<Rightarrow> (string \<times> string) list" where
  "archive_files file_exists [] = []"
| "archive_files file_exists (None # rest) = archive_files file_exists rest"
| "archive_files file_exists (Some c # rest) =
     (case filePath c of
        None \<Rightarrow> archive_files file_exists rest
      | Some p \<Rightarrow>
          if p \<noteq> [] \<and> file_exists p
          then (p, entry_name c) # archive_files file_exists rest
          else archive_files file_exists rest)"

definition post_download_bulk ::
    "(string \<Rightarrow> bool) \<Rightarrow> mem_storage \<Rightarrow> int option list option \<Rightarrow> reply" where
  "post_download_bulk file_exists s body_ids =
     (case body_ids of
        None \<Rightarrow> Failure 400 ''Invalid file IDs''
      | Some ids \<Rightarrow>
          if length ids = 0 then Failure 400 ''Invalid file IDs''
          else (let conversions = map (lookup s) ids;
                    validConversions = filter valid_conversion conversions
                in if length validConversions = 0
                   then Failure 404 ''No valid files found for download''
                   else Zip_archive (archive_files file_exists validConversions)))"

text \<open>
  \<open>DELETE /api/conversions/:id\<close>. Besides the reply and the store, the handler
  returns the storage key of the file that it asks the file system to remove, if any.
\<close>

definition delete_conversion ::
    "mem_storage \<Rightarrow> int option \<Rightarrow> reply \<times> mem_storage \<times> string option" where
  "delete_conversion s i =
     (let removed = (case lookup s i of
                       None \<Rightarrow> None
                     | Some c \<Rightarrow> (case filePath c of
                                    None \<Rightarrow> None
                                  | Some p \<Rightarrow> if p \<noteq> [] then Some p else None));
          (deleted, s') = (case i of None \<Rightarrow> (False, s) | Some k \<Rightarrow> deleteConversion s k)
      in (if \<not> deleted then Failure 404 ''Conversion not found''
          else Json_message ''Conversion deleted successfully'', s', removed))"

section \<open>The server: the store and the running pipelines\<close>

text \<open>
  Pipelines run concurrently with the handlers, and everything they share is the store.
  The server's state is the store together with, for every job id, the writes that
  its pipeline has still to make. An event is one access to the store: a handler's
  \<open>createConversion\<close> followed by its call of \<open>processConversion\<close> for the new id
  (the run says what the collaborators will deliver), the next \<open>updateConversion\<close>
  of a running pipeline, or the \<open>deleteConversion\<close> of the delete handler. The
  order of the events is arbitrary. A pipeline whose job has been deleted goes on, and
  its writes find no job; a pipeline that finds no job at its start returns at once,
  which leaves the store as the writes that find no job do.
\<close>

record server =
  store :: mem_storage
  pending :: "int \<Rightarrow> partial_conversion list"

datatype event = Create string int run | Advance int | Delete int

definition boot :: server where
  "boot = \<lparr>store = new_MemStorage, pending = (\<lambda>k. [])\<rparr>"

fun step :: "server \<Rightarrow> event \<Rightarrow> server" where
  "step sv (Create u now r) =
     (let (conversion, s') = createConversion (store sv) u now; k = conv_id conversion
      in \<lparr>store = s', pending = (pending sv)(k := pipeline_updates r k)\<rparr>)"
| "step sv (Advance k) =
     (case pending sv k of
        [] \<Rightarrow> sv
      | u # us \<Rightarrow> \<lparr>store = snd (updateConversion (store sv) k u),
                   pending = (pending sv)(k := us)\<rparr>)"
| "step sv (Delete k) = sv\<lparr>store := snd (deleteConversion (store sv) k)\<rparr>"

definition exec :: "event list \<Rightarrow> server" where
  "exec evs = foldl step boot evs"

text \<open>The job as a client sees it after some events.\<close>

definition job :: "event list \<Rightarrow> int \<Rightarrow> conversion option" where
  "job evs k = getConversion (store (exec evs)) k"

text \<open>
  The events of the bulk handler up to its reply: for each URL up to the first rejected
  one the creation of its job (\<open>n\<close> is the id it gets), followed by the first write of
  the pipeline of the job created before, if there is one.
\<close>

fun bulk_events ::
    "(string \<Rightarrow> bool) \<Rightarrow> run \<Rightarrow> int \<Rightarrow> int option \<Rightarrow> (string \<times> int) list \<Rightarrow> event list" where
  "bulk_events validateURL r n previous [] = []"
| "bulk_events validateURL r n previous ((u, now) # rest) =
     (if \<not> validateURL u then []
      else Create u now r # (case previous of None \<Rightarrow> [] | Some k \<Rightarrow> [Advance k]) @
           bulk_events validateURL r (n + 1) (Some n) rest)"

section \<open>Predicates of the properties\<close>

text \<open>The order of the states: pending, then processing, then the two terminal ones.\<close>

definition terminal :: "string \<Rightarrow> bool" where
  "terminal st = (st = ''completed'' \<or> st = ''failed'')"

definition stage :: "string \<Rightarrow> nat" where
  "stage st = (if st = ''pending'' then 0 else if st = ''processing'' then 1 else 2)"

text \<open>The persisted progress as a number (a \<open>null\<close> reads as 0, as the client shows it).\<close>

definition progress_value :: "conversion \<Rightarrow> int" where
  "progress_value c = (case progress c of None \<Rightarrow> 0 | Some n \<Rightarrow> n)"

text \<open>A record with no artifact, no error and no completion time.\<close>

definition blank :: "conversion \<Rightarrow> bool" where
  "blank c = (filePath c = None \<and> fileName c = None \<and> fileSize c = None \<and>
     errorMessage c = None \<and> completedAt c = None)"

text \<open>
  The kinds of writes of a pipeline: the first one, one that leaves the status, the
  artifact, the error and the completion time alone, the one that completes the job and
  the one that fails it.
\<close>

definition starts :: "partial_conversion \<Rightarrow> bool" where
  "starts u = (p_status u = Some ''processing'' \<and> p_filePath u = None \<and> p_fileName u = None \<and>
     p_fileSize u = None \<and> p_errorMessage u = None \<and> p_completedAt u = None)"

definition quiet :: "partial_conversion \<Rightarrow> bool" where
  "quiet u = (p_status u = None \<and> p_filePath u = None \<and> p_fileName u = None \<and>
     p_fileSize u = None \<and> p_errorMessage u = None \<and> p_completedAt u = None)"

definition is_value :: "'a option option \<Rightarrow> bool" where
  "is_value x = (case x of Some (Some v) \<Rightarrow> True | _ \<Rightarrow> False)"

definition completes :: "partial_conversion \<Rightarrow> bool" where
  "completes u = (p_status u = Some ''completed'' \<and> p_progress u = Some (Some 100) \<and>
     is_value (p_filePath u) \<and> is_value (p_fileName u) \<and> is_value (p_fileSize u) \<and>
     is_value (p_completedAt u) \<and> p_errorMessage u = None)"

definition fails :: "partial_conversion \<Rightarrow> bool" where
  "fails u = (p_status u = Some ''failed'' \<and> is_value (p_errorMessage u) \<and>
     p_filePath u = None \<and> p_fileName u = None \<and> p_fileSize u = None \<and>
     p_completedAt u = None)"

text \<open>The writes still to come of a job in processing: quiet ones, then a terminal one.\<close>

fun rest_ok :: "partial_conversion list \<Rightarrow> bool" where
  "rest_ok [] = False"
| "rest_ok [u] = (completes u \<or> fails u)"
| "rest_ok (u # us) = (quiet u \<and> rest_ok us)"

text \<open>What a job's record and the writes still to come of its pipeline have to do with each other.\<close>

definition job_ok :: "conversion \<Rightarrow> partial_conversion list \<Rightarrow> bool" where
  "job_ok c us =
     (if status c = ''pending'' then blank c \<and> (case us of [] \<Rightarrow> False | u # us' \<Rightarrow> starts u \<and> rest_ok us')
      else if status c = ''processing'' then blank c \<and> rest_ok us
      else if status c = ''completed'' then
        us = [] \<and> filePath c \<noteq> None \<and> fileName c \<noteq> None \<and> fileSize c \<noteq> None \<and>
        completedAt c \<noteq> None \<and> progress c = Some 100 \<and> errorMessage c = None
      else status c = ''failed'' \<and> us = [] \<and> errorMessage c \<noteq> None \<and> filePath c = None \<and>
        fileName c = None \<and> fileSize c = None)"

definition server_ok :: "server \<Rightarrow> bool" where
  "server_ok sv =
     ((\<forall>k c. getConversion (store sv) k = Some c \<longrightarrow> job_ok c (pending sv k)) \<and>
      (\<forall>k c. getConversion (store sv) k = Some c \<longrightarrow> k < currentConversionId (store sv)))"

text \<open>The progress values that a list of writes persists, in order.\<close>

fun progress_writes :: "partial_conversion list \<Rightarrow> int list" where
  "progress_writes [] = []"
| "progress_writes (u # us) =
     (case p_progress u of
        None \<Rightarrow> progress_writes us
      | Some v \<Rightarrow> (case v of None \<Rightarrow> 0 | Some n \<Rightarrow> n) # progress_writes us)"

text \<open>The runs of the jobs created by a list of events.\<close>

fun runs :: "event list \<Rightarrow> run list" where
  "runs [] = []"
| "runs (Create u now r # evs) = r # runs evs"
| "runs (e # evs) = runs evs"

definition steady :: "run \<Rightarrow> bool" where
  "steady r = sorted (map percentage (progress_events r))"

text \<open>
  The run of the job with id \<open>k\<close>: ids are given out from 1 on, one per create event,
  so it is the run of the \<open>k\<close>-th create event.
\<close>

definition run_of :: "event list \<Rightarrow> int \<Rightarrow> run option" where
  "run_of evs k =
     (if 1 \<le> k \<and> nat k \<le> length (runs evs) then Some (runs evs ! (nat k - 1)) else None)"

section \<open>The archive as the specification describes it\<close>

text \<open>
  One entry per identifier that resolves to a job with status completed and an artifact
  location, in input order; not found when there is none.
\<close>

definition claimed_entry :: "mem_storage \<Rightarrow> int option \<Rightarrow> (string \<times> string) option" where
  "claimed_entry s i =
     (case lookup s i of
        None \<Rightarrow> None
      | Some c \<Rightarrow>
          (case filePath c of
             None \<Rightarrow> None
           | Some p \<Rightarrow> if status c = ''completed'' then Some (p, entry_name c) else None))"

definition claimed_archive :: "mem_storage \<Rightarrow> int option list \<Rightarrow> reply" where
  "claimed_archive s ids =
     (let entries = List.map_filter (claimed_entry s) ids
      in if entries = [] then Failure 404 ''No valid files found for download''
         else Zip_archive entries)"

text \<open>The same entry, kept only when the file is there under a storage key that is not empty.\<close>

definition served_entry ::
    "(string \<Rightarrow> bool) \<Rightarrow> mem_storage \<Rightarrow> int option \<Rightarrow> (string \<times> string) option" where
  "served_entry file_exists s i =
     (case claimed_entry s i of
        None \<Rightarrow> None
      | Some (p, n) \<Rightarrow> if p \<noteq> [] \<and> file_exists p then Some (p, n) else None)"

section \<open>Example runs\<close>

text \<open>A run that succeeds, one whose progress goes back, one whose video is gone, and one
  whose progress only grows.\<close>

definition song_run :: run where
  "song_run = \<lparr>getInfo = Returns ''Song!'', date_now = 1700,
     progress_events = [Number 40, Undefined, Number 97.5], transcode = Returns (),
     stat_size = Returns 4096, completed_date = 1800\<rparr>"

definition jumpy_run :: run where
  "jumpy_run = \<lparr>getInfo = Returns ''Live set'', date_now = 2500,
     progress_events = [Number 50, Number 30], transcode = Returns (),
     stat_size = Returns 9000, completed_date = 2600\<rparr>"

definition offline_run :: run where
  "offline_run = \<lparr>getInfo = Throws (Error ''Video unavailable''), date_now = 0,
     progress_events = [], transcode = Returns (), stat_size = Returns 0,
     completed_date = 0\<rparr>"

definition calm_run :: run where
  "calm_run = \<lparr>getInfo = Returns ''Lullaby'', date_now = 3100,
     progress_events = [Number 20, Number 60.4, PosInfinity], transcode = Returns (),
     stat_size = Returns 512, completed_date = 3200\<rparr>"

text \<open>
  A job that is completed (id 1) and one that has failed (id 2); nothing has the id 3.
\<close>

definition two_jobs :: "event list" where
  "two_jobs = [Create ''https://youtu.be/dQw4w9WgXcQ'' 7 song_run, Create ''https://youtu.be/9bZkp7q19f0'' 8 offline_run,
     Advance 1, Advance 2, Advance 1, Advance 2, Advance 1, Advance 1, Advance 1, Advance 1]"

text \<open>
  A job whose progress has gone back (id 1) next to one whose progress only grows
  (id 2), both in processing.
\<close>

definition mixed :: "event list" where
  "mixed = [Create ''https://youtu.be/dQw4w9WgXcQ'' 9 jumpy_run,
     Create ''https://youtu.be/9bZkp7q19f0'' 10 calm_run,
     Advance 1, Advance 1, Advance 1, Advance 1, Advance 2, Advance 2, Advance 2]"

section \<open>Facts about the store operations\<close>

lemma get_update_same:
  "getConversion s k = Some c \<Longrightarrow> getConversion (snd (updateConversion s k u)) k = Some (spread c u)"
  by (simp add: getConversion_def updateConversion_def update_conv' Let_def)

lemma get_update_other:
  "k' \<noteq> k \<Longrightarrow> getConversion (snd (updateConversion s k u)) k' = getConversion s k'"
  by (simp add: getConversion_def updateConversion_def update_conv' Let_def split: option.splits)

lemma update_absent:
  "getConversion s k = None \<Longrightarrow> updateConversion s k u = (None, s)"
  by (simp add: getConversion_def updateConversion_def)

lemma counter_update: "currentConversionId (snd (updateConversion s k u)) = currentConversionId s"
  by (simp add: updateConversion_def Let_def split: option.splits)

lemma get_delete_same: "getConversion (snd (deleteConversion s k)) k = None"
  by (simp add: getConversion_def deleteConversion_def delete_conv')

lemma get_delete_other:
  "k' \<noteq> k \<Longrightarrow> getConversion (snd (deleteConversion s k)) k' = getConversion s k'"
  by (simp add: getConversion_def deleteConversion_def)

lemma counter_delete: "currentConversionId (snd (deleteConversion s k)) = currentConversionId s"
  by (simp add: deleteConversion_def)

lemma delete_found: "fst (deleteConversion s k) = (getConversion s k \<noteq> None)"
  by (simp add: getConversion_def deleteConversion_def map_of_eq_None_iff)

lemma delete_absent: "getConversion s k = None \<Longrightarrow> deleteConversion s k = (False, s)"
  by (simp add: getConversion_def deleteConversion_def map_of_eq_None_iff)

lemma update_all_absent:
  "getConversion s k = None \<Longrightarrow> update_all s k us = (replicate (length us) None, s)"
  by (induction us) (simp_all add: update_absent)

lemma get_create_same:
  "getConversion (snd (createConversion s u now)) (currentConversionId s) = Some (fst (createConversion s u now))"
  by (simp add: getConversion_def createConversion_def update_conv' Let_def)

lemma get_create_other:
  "k \<noteq> currentConversionId s \<Longrightarrow> getConversion (snd (createConversion s u now)) k = getConversion s k"
  by (simp add: getConversion_def createConversion_def update_conv' Let_def)

lemma counter_create: "currentConversionId (snd (createConversion s u now)) = currentConversionId s + 1"
  by (simp add: createConversion_def Let_def)

lemma id_create: "conv_id (fst (createConversion s u now)) = currentConversionId s"
  by (simp add: createConversion_def Let_def)

lemma created_pending: "status (fst (createConversion s u now)) = ''pending''"
  by (simp add: createConversion_def Let_def)

lemma created_blank: "blank (fst (createConversion s u now))"
  by (simp add: createConversion_def Let_def blank_def)

lemma created_progress: "progress (fst (createConversion s u now)) = Some 0"
  by (simp add: createConversion_def Let_def)

section \<open>The writes of a pipeline and the record they meet\<close>

lemma starts_processing: "starts upd_processing"
  by (simp add: starts_def upd_processing_def no_updates_def)

lemma quiet_title: "quiet (upd_title t)"
  by (simp add: quiet_def upd_title_def no_updates_def)

lemma quiet_progress: "quiet (upd_progress n)"
  by (simp add: quiet_def upd_progress_def no_updates_def)

lemma fails_failed: "fails (upd_failed e)"
  by (simp add: fails_def upd_failed_def no_updates_def is_value_def)

lemma completes_completed: "completes (upd_completed p n b d)"
  by (simp add: completes_def upd_completed_def no_updates_def is_value_def)

lemma rest_ok_append: "rest_ok us \<Longrightarrow> \<forall>u \<in> set qs. quiet u \<Longrightarrow> rest_ok (qs @ us)"
proof (induction qs)
  case Nil
  then show ?case by simp
next
  case (Cons q qs)
  then have "rest_ok (qs @ us)" by simp
  moreover from this have "qs @ us \<noteq> []" by auto
  ultimately show ?case using Cons.prems(2) by (cases "qs @ us") simp_all
qed

lemma rest_ok_after_info: "rest_ok (after_info r k t)"
  unfolding after_info_def Let_def
  by (rule rest_ok_append)
     (auto simp: fails_failed completes_completed quiet_progress split: attempt.splits)

lemma pipeline_updates_ok:
  "\<exists>u us. pipeline_updates r k = u # us \<and> starts u \<and> rest_ok us"
proof (cases "getInfo r")
  case (Throws e)
  then show ?thesis by (simp add: pipeline_updates_def starts_processing fails_failed)
next
  case (Returns raw)
  have "rest_ok (upd_title (sanitize raw) # after_info r k (sanitize raw))"
    using rest_ok_after_info [of r k "sanitize raw"] quiet_title [of "sanitize raw"]
    by (cases "after_info r k (sanitize raw)") simp_all
  with Returns show ?thesis by (simp add: pipeline_updates_def starts_processing Let_def)
qed

lemma job_ok_created: "job_ok (fst (createConversion s u now)) (pipeline_updates r k)"
  using pipeline_updates_ok [of r k]
  by (auto simp: job_ok_def created_pending created_blank)


lemma job_ok_advance:
  assumes "job_ok c (u # us)"
  shows "job_ok (spread c u) us"
proof -
  have st: "status c = ''pending'' \<or> status c = ''processing''"
    using assms by (auto simp: job_ok_def split: if_splits)
  then show ?thesis
  proof
    assume p: "status c = ''pending''"
    with assms have "blank c" "starts u" "rest_ok us" by (auto simp: job_ok_def)
    then show ?thesis
      by (auto simp: job_ok_def spread_def spread_key_def blank_def starts_def)
  next
    assume p: "status c = ''processing''"
    with assms have b: "blank c" and r: "rest_ok (u # us)" by (auto simp: job_ok_def)
    show ?thesis
    proof (cases us)
      case Nil
      with r have "completes u \<or> fails u" by simp
      with b Nil show ?thesis
        by (auto simp: job_ok_def spread_def spread_key_def blank_def completes_def fails_def
            is_value_def split: option.splits)
    next
      case (Cons a as)
      with r have "quiet u" "rest_ok us" by simp_all
      with b p show ?thesis
        by (auto simp: job_ok_def spread_def spread_key_def blank_def quiet_def)
    qed
  qed
qed

section \<open>The invariant of the server\<close>

lemma server_ok_boot: "server_ok boot"
  by (simp add: server_ok_def boot_def new_MemStorage_def getConversion_def)

lemma step_Create:
  "step sv (Create u now r) =
     \<lparr>store = snd (createConversion (store sv) u now),
      pending = (pending sv)(currentConversionId (store sv) :=
        pipeline_updates r (currentConversionId (store sv)))\<rparr>"
  by (simp add: split_beta Let_def id_create)

declare step.simps(1) [simp del]

lemma server_ok_job:
  "server_ok sv \<Longrightarrow> getConversion (store sv) k = Some c \<Longrightarrow> job_ok c (pending sv k)"
  by (simp add: server_ok_def)

lemma server_ok_counter:
  "server_ok sv \<Longrightarrow> getConversion (store sv) k = Some c \<Longrightarrow> k < currentConversionId (store sv)"
  by (simp add: server_ok_def)

lemma server_ok_step:
  assumes "server_ok sv"
  shows "server_ok (step sv e)"
proof (cases e)
  case (Create u now r)
  let ?n = "currentConversionId (store sv)"
  have "job_ok c (pending (step sv e) k) \<and> k < currentConversionId (store (step sv e))"
    if g: "getConversion (store (step sv e)) k = Some c" for k c
  proof (cases "k = ?n")
    case True
    with g Create have "c = fst (createConversion (store sv) u now)"
      by (simp add: step_Create get_create_same)
    with True Create show ?thesis
      by (simp add: step_Create job_ok_created counter_create)
  next
    case False
    with g Create have "getConversion (store sv) k = Some c"
      by (simp add: step_Create get_create_other)
    with assms have "job_ok c (pending sv k)" "k < ?n"
      by (auto dest: server_ok_job server_ok_counter)
    with False Create show ?thesis by (simp add: step_Create counter_create)
  qed
  then show ?thesis by (simp add: server_ok_def)
next
  case (Advance j)
  show ?thesis
  proof (cases "pending sv j")
    case Nil
    with Advance assms show ?thesis by simp
  next
    case (Cons u us)
    have "job_ok c (pending (step sv e) k) \<and> k < currentConversionId (store (step sv e))"
      if g: "getConversion (store (step sv e)) k = Some c" for k c
    proof (cases "k = j")
      case True
      show ?thesis
      proof (cases "getConversion (store sv) j")
        case None
        with g True Advance Cons show ?thesis by (simp add: update_absent)
      next
        case (Some c0)
        with g True Advance Cons have c: "c = spread c0 u" by (simp add: get_update_same)
        from Some assms Cons have "job_ok c0 (u # us)" "j < currentConversionId (store sv)"
          by (auto dest: server_ok_job server_ok_counter)
        with c True Advance Cons show ?thesis
          by (simp add: job_ok_advance counter_update)
      qed
    next
      case False
      with g Advance Cons have "getConversion (store sv) k = Some c"
        by (simp add: get_update_other)
      with assms have "job_ok c (pending sv k)" "k < currentConversionId (store sv)"
        by (auto dest: server_ok_job server_ok_counter)
      with False Advance Cons show ?thesis by (simp add: counter_update)
    qed
    then show ?thesis by (simp add: server_ok_def)
  qed
next
  case (Delete j)
  have "job_ok c (pending (step sv e) k) \<and> k < currentConversionId (store (step sv e))"
    if g: "getConversion (store (step sv e)) k = Some c" for k c
  proof -
    from g Delete have "k \<noteq> j" by (auto simp: get_delete_same)
    with g Delete have "getConversion (store sv) k = Some c" by (simp add: get_delete_other)
    with assms have "job_ok c (pending sv k)" "k < currentConversionId (store sv)"
      by (auto dest: server_ok_job server_ok_counter)
    with Delete show ?thesis by (simp add: counter_delete)
  qed
  then show ?thesis by (simp add: server_ok_def)
qed

lemma exec_snoc: "exec (evs @ [e]) = step (exec evs) e"
  by (simp add: exec_def)

lemma exec_Nil: "exec [] = boot"
  by (simp add: exec_def)

lemma server_ok_exec: "server_ok (exec evs)"
  by (induction evs rule: rev_induct) (simp_all add: exec_Nil exec_snoc server_ok_boot server_ok_step)

lemma job_ok_exec: "job evs k = Some c \<Longrightarrow> job_ok c (pending (exec evs) k)"
  using server_ok_exec [of evs] by (simp add: server_ok_def job_def)

lemma job_below_counter: "job evs k = Some c \<Longrightarrow> k < currentConversionId (store (exec evs))"
  using server_ok_exec [of evs] by (simp add: server_ok_def job_def)

section \<open>The handlers as events\<close>

text \<open>
  What the submit and delete handlers do to the store is what the events do: a create
  event for a URL that \<open>ytdl.validateURL\<close> accepts, the events of \<open>bulk_events\<close> for
  the bulk handler, and a delete event.
\<close>

lemma post_conversions_event:
  "fst (snd (post_conversions validateURL (store sv) u now)) =
     store (if validateURL u then step sv (Create u now r) else sv)"
  by (simp add: post_conversions_def step_Create split_beta)

lemma pipeline_updates_head: "\<exists>us. pipeline_updates r k = upd_processing # us"
  by (simp add: pipeline_updates_def)

lemma bulk_loop_events:
  assumes "n = currentConversionId (store sv)"
    and "case previous of
           None \<Rightarrow> created = []
         | Some k \<Rightarrow> created \<noteq> [] \<and> conv_id (last created) = k \<and> k < n \<and>
             (\<exists>us. pending sv k = upd_processing # us)"
  shows "fst (snd (bulk_loop validateURL (store sv) urls created)) =
     store (foldl step sv (bulk_events validateURL r n previous urls))"
  using assms
proof (induction urls arbitrary: sv created previous n)
  case Nil
  then show ?case by simp
next
  case (Cons a urls)
  obtain u now where a: "a = (u, now)" by (cases a)
  show ?case
  proof (cases "validateURL u")
    case False
    with a show ?thesis by simp
  next
    case True
    let ?sv1 = "step sv (Create u now r)"
    have s1: "store ?sv1 = snd (createConversion (store sv) u now)"
      and p1: "pending ?sv1 = (pending sv)(n := pipeline_updates r n)"
      using Cons.prems(1) by (simp_all add: step_Create)
    have id1: "conv_id (fst (createConversion (store sv) u now)) = n"
      using Cons.prems(1) by (simp add: id_create)
    have n1: "n + 1 = currentConversionId (store ?sv1)"
      using Cons.prems(1) by (simp add: s1 counter_create)
    obtain us1 where h1: "pipeline_updates r n = upd_processing # us1"
      using pipeline_updates_head by blast
    show ?thesis
    proof (cases previous)
      case None
      with Cons.prems(2) have cr: "created = []" by simp
      have pre: "case Some n of
           None \<Rightarrow> created @ [fst (createConversion (store sv) u now)] = []
         | Some k \<Rightarrow> created @ [fst (createConversion (store sv) u now)] \<noteq> [] \<and>
             conv_id (last (created @ [fst (createConversion (store sv) u now)])) = k \<and>
             k < n + 1 \<and> (\<exists>us. pending ?sv1 k = upd_processing # us)"
        using id1 h1 by (simp add: p1)
      from Cons.IH [OF n1 pre, of ] True a None cr s1 show ?thesis
        by (simp add: split_beta)
    next
      case (Some k)
      with Cons.prems(2) obtain us where cr: "created \<noteq> []" and lk: "conv_id (last created) = k"
        and kn: "k < n" and pk: "pending sv k = upd_processing # us" by auto
      let ?sv2 = "step ?sv1 (Advance k)"
      from kn pk have pk1: "pending ?sv1 k = upd_processing # us" by (simp add: p1)
      then have s2: "store ?sv2 = snd (updateConversion (store ?sv1) k upd_processing)"
        and p2: "pending ?sv2 = (pending ?sv1)(k := us)"
        by simp_all
      have n2: "n + 1 = currentConversionId (store ?sv2)"
        using n1 pk1 by (simp add: counter_update)
      have "pending ?sv2 n = ((pending ?sv1)(k := us)) n" by (simp only: p2)
      also have "\<dots> = upd_processing # us1" using kn h1 by (simp add: p1)
      finally have pn: "pending ?sv2 n = upd_processing # us1" .
      have pre: "case Some n of
           None \<Rightarrow> created @ [fst (createConversion (store sv) u now)] = []
         | Some j \<Rightarrow> created @ [fst (createConversion (store sv) u now)] \<noteq> [] \<and>
             conv_id (last (created @ [fst (createConversion (store sv) u now)])) = j \<and>
             j < n + 1 \<and> (\<exists>us. pending ?sv2 j = upd_processing # us)"
        using id1 pn by simp
      have L: "bulk_loop validateURL (store sv) (a # urls) created =
          bulk_loop validateURL (store ?sv2) urls
            (created @ [fst (createConversion (store sv) u now)])"
        using True a cr lk by (simp add: split_beta s2 s1 del: step.simps)
      have R: "foldl step sv (bulk_events validateURL r n previous (a # urls)) =
          foldl step ?sv2 (bulk_events validateURL r (n + 1) (Some n) urls)"
        using True a Some by (simp del: step.simps)
      from Cons.IH [OF n2 pre] show ?thesis by (simp only: L R)
    qed
  qed
qed

lemma post_conversions_bulk_events:
  "bulkConversionSchema is_url (map fst urls) \<Longrightarrow>
   fst (snd (post_conversions_bulk is_url validateURL (store sv) urls)) =
     store (foldl step sv
       (bulk_events validateURL r (currentConversionId (store sv)) None urls))"
  using bulk_loop_events [OF refl, where previous = None and created = "[]"]
  by (simp add: post_conversions_bulk_def)

lemma delete_conversion_event:
  "fst (snd (delete_conversion (store sv) (Some k))) = store (step sv (Delete k))"
  by (simp add: delete_conversion_def split_beta Let_def)

section \<open>The store contract\<close>

lemma absent_step:
  assumes "getConversion (store sv) k = None" "k < currentConversionId (store sv)"
  shows "getConversion (store (step sv e)) k = None \<and> k < currentConversionId (store (step sv e))"
proof (cases e)
  case (Create u now r)
  with assms show ?thesis by (simp add: step_Create get_create_other counter_create)
next
  case (Advance j)
  show ?thesis
  proof (cases "pending sv j")
    case Nil
    with Advance assms show ?thesis by simp
  next
    case (Cons u us)
    show ?thesis
    proof (cases "j = k")
      case True
      with Advance Cons assms show ?thesis by (simp add: update_absent)
    next
      case False
      with Advance Cons assms show ?thesis by (simp add: get_update_other counter_update)
    qed
  qed
next
  case (Delete j)
  with assms show ?thesis
    by (cases "j = k") (simp_all add: get_delete_same get_delete_other counter_delete)
qed

lemma absent_steps:
  "getConversion (store sv) k = None \<Longrightarrow> k < currentConversionId (store sv) \<Longrightarrow>
   getConversion (store (foldl step sv evs)) k = None \<and>
   k < currentConversionId (store (foldl step sv evs))"
  by (induction evs rule: rev_induct) (simp_all add: absent_step)

lemma deleted_stays_deleted:
  assumes "job evs k = Some c"
  shows "job (evs @ Delete k # evs') k = None"
proof -
  let ?sv = "step (exec evs) (Delete k)"
  have "getConversion (store ?sv) k = None" by (simp add: get_delete_same)
  moreover have "k < currentConversionId (store ?sv)"
    using job_below_counter [OF assms] by (simp add: counter_delete)
  ultimately have "getConversion (store (foldl step ?sv evs')) k = None"
    by (simp add: absent_steps)
  then show ?thesis by (simp add: job_def exec_def)
qed

text \<open>
  C5. An update of an id that is not in the store returns absent and leaves the store as
  it is. After a delete the id is not in the store, every later update of it (any
  sequence of them) returns absent and changes nothing, and on the server a job that
  was there and has been deleted stays absent whatever happens next, the remaining
  writes of its pipeline included.
\<close>

theorem update_of_absent_job:
  "(getConversion s k = None \<longrightarrow> updateConversion s k u = (None, s)) \<and>
   getConversion (snd (deleteConversion s k)) k = None \<and>
   update_all (snd (deleteConversion s k)) k us =
     (replicate (length us) None, snd (deleteConversion s k)) \<and>
   (job evs k \<noteq> None \<longrightarrow> job (evs @ Delete k # evs') k = None)"
  by (auto simp: update_absent get_delete_same update_all_absent deleted_stays_deleted)

theorem update_of_absent_job_witness:
  "getConversion new_MemStorage 1 = None \<and>
   updateConversion new_MemStorage 1 upd_processing = (None, new_MemStorage) \<and>
   job [Create ''https://youtu.be/dQw4w9WgXcQ'' 7 song_run, Advance 1] 1 \<noteq> None \<and>
   job ([Create ''https://youtu.be/dQw4w9WgXcQ'' 7 song_run, Advance 1] @
        Delete 1 # [Advance 1, Advance 1, Create ''https://youtu.be/9bZkp7q19f0'' 8 offline_run]) 1 = None"
proof -
  have a: "getConversion new_MemStorage 1 = None"
    by (simp add: getConversion_def new_MemStorage_def)
  have b: "job [Create ''https://youtu.be/dQw4w9WgXcQ'' 7 song_run, Advance 1] 1 \<noteq> None"
    by code_simp
  show ?thesis
    using a b update_of_absent_job [of new_MemStorage 1 upd_processing "[]"
        "[Create ''https://youtu.be/dQw4w9WgXcQ'' 7 song_run, Advance 1]"
        "[Advance 1, Advance 1, Create ''https://youtu.be/9bZkp7q19f0'' 8 offline_run]"]
    by simp
qed

text \<open>
  C8. An update of a job that exists returns the merged record and stores it under the
  id. In the merged record a field that the patch names has the patch's value and every
  field that the patch does not name has the value it had; the other jobs and the id
  counter are as before.
\<close>

theorem updateConversion_merges:
  assumes "getConversion s k = Some existing"
    and "updateConversion s k u = (result, s')"
  shows "\<exists>updated. result = Some updated \<and> getConversion s' k = Some updated \<and>
     conv_id updated = (case p_id u of None \<Rightarrow> conv_id existing | Some v \<Rightarrow> v) \<and>
     url updated = (case p_url u of None \<Rightarrow> url existing | Some v \<Rightarrow> v) \<and>
     title updated = (case p_title u of None \<Rightarrow> title existing | Some v \<Rightarrow> v) \<and>
     status updated = (case p_status u of None \<Rightarrow> status existing | Some v \<Rightarrow> v) \<and>
     progress updated = (case p_progress u of None \<Rightarrow> progress existing | Some v \<Rightarrow> v) \<and>
     filePath updated = (case p_filePath u of None \<Rightarrow> filePath existing | Some v \<Rightarrow> v) \<and>
     fileName updated = (case p_fileName u of None \<Rightarrow> fileName existing | Some v \<Rightarrow> v) \<and>
     fileSize updated = (case p_fileSize u of None \<Rightarrow> fileSize existing | Some v \<Rightarrow> v) \<and>
     errorMessage updated =
       (case p_errorMessage u of None \<Rightarrow> errorMessage existing | Some v \<Rightarrow> v) \<and>
     createdAt updated = (case p_createdAt u of None \<Rightarrow> createdAt existing | Some v \<Rightarrow> v) \<and>
     completedAt updated =
       (case p_completedAt u of None \<Rightarrow> completedAt existing | Some v \<Rightarrow> v) \<and>
     (\<forall>j. j \<noteq> k \<longrightarrow> getConversion s' j = getConversion s j) \<and>
     map fst (conversions s') = map fst (conversions s) \<and>
     currentConversionId s' = currentConversionId s"
proof -
  from assms(1) have m: "map_of (conversions s) k = Some existing"
    by (simp add: getConversion_def)
  then have "k \<in> fst ` set (conversions s)"
    using map_of_eq_None_iff [of "conversions s" k] by auto
  then have keys: "map fst (AList.update k (spread existing u) (conversions s)) = map fst (conversions s)"
    by (simp add: update_keys)
  from m assms(2) have r: "result = Some (spread existing u)"
    and s': "s' = s\<lparr>conversions := AList.update k (spread existing u) (conversions s)\<rparr>"
    by (auto simp: updateConversion_def Let_def)
  have other: "getConversion s' j = getConversion s j" if "j \<noteq> k" for j
    using that s' by (simp add: getConversion_def update_conv')
  have same: "getConversion s' k = Some (spread existing u)"
    using s' by (simp add: getConversion_def update_conv')
  show ?thesis
    using r same other keys s' by (simp add: spread_def spread_key_def)
qed

theorem updateConversion_merges_witness:
  "getConversion (store (exec [Create ''https://youtu.be/dQw4w9WgXcQ'' 7 song_run])) 1 =
     Some \<lparr>conv_id = 1, url = ''https://youtu.be/dQw4w9WgXcQ'', title = None, status = ''pending'',
       progress = Some 0, filePath = None, fileName = None, fileSize = None,
       errorMessage = None, createdAt = Some 7, completedAt = None\<rparr> \<and>
   fst (updateConversion (store (exec [Create ''https://youtu.be/dQw4w9WgXcQ'' 7 song_run])) 1
       (upd_title ''Song'')) =
     Some \<lparr>conv_id = 1, url = ''https://youtu.be/dQw4w9WgXcQ'', title = Some ''Song'',
       status = ''pending'', progress = Some 15, filePath = None, fileName = None,
       fileSize = None, errorMessage = None, createdAt = Some 7, completedAt = None\<rparr>"
proof -
  let ?s = "store (exec [Create ''https://youtu.be/dQw4w9WgXcQ'' 7 song_run])"
  let ?c = "\<lparr>conv_id = 1, url = ''https://youtu.be/dQw4w9WgXcQ'', title = None, status = ''pending'',
       progress = Some 0, filePath = None, fileName = None, fileSize = None,
       errorMessage = None, createdAt = Some 7, completedAt = None\<rparr>"
  have a: "getConversion ?s 1 = Some ?c" by code_simp
  have b: "updateConversion ?s 1 (upd_title ''Song'') =
      (fst (updateConversion ?s 1 (upd_title ''Song'')), snd (updateConversion ?s 1 (upd_title ''Song'')))"
    by simp
  have c: "fst (updateConversion ?s 1 (upd_title ''Song'')) =
     Some \<lparr>conv_id = 1, url = ''https://youtu.be/dQw4w9WgXcQ'', title = Some ''Song'',
       status = ''pending'', progress = Some 15, filePath = None, fileName = None,
       fileSize = None, errorMessage = None, createdAt = Some 7, completedAt = None\<rparr>"
    by code_simp
  from updateConversion_merges [OF a b] a c show ?thesis by simp
qed

text \<open>
  C9. A delete returns whether the id was in the store, and the id is not in the store
  afterwards. A second delete of the same id returns false and leaves the store as the
  first one left it, and the delete handler answers it with 404 and asks for no file
  to be removed.
\<close>

theorem delete_twice:
  "fst (deleteConversion s k) = (getConversion s k \<noteq> None) \<and>
   getConversion (snd (deleteConversion s k)) k = None \<and>
   deleteConversion (snd (deleteConversion s k)) k = (False, snd (deleteConversion s k)) \<and>
   delete_conversion (snd (deleteConversion s k)) (Some k) =
     (Failure 404 ''Conversion not found'', snd (deleteConversion s k), None)"
  by (simp add: delete_found get_delete_same delete_absent delete_conversion_def lookup_def)

theorem delete_twice_witness:
  "fst (deleteConversion (store (exec two_jobs)) 1) = True \<and>
   deleteConversion (snd (deleteConversion (store (exec two_jobs)) 1)) 1 =
     (False, snd (deleteConversion (store (exec two_jobs)) 1))"
proof -
  have "getConversion (store (exec two_jobs)) 1 \<noteq> None" by code_simp
  with delete_twice [of "store (exec two_jobs)" 1] show ?thesis by simp
qed

text \<open>
  C10. When the id is not in the store, \<open>processConversion\<close> returns with the store as
  it found it.
\<close>

theorem processConversion_absent:
  "getConversion s conversionId = None \<Longrightarrow> processConversion r s conversionId = s"
  by (simp add: processConversion_def)

theorem processConversion_absent_witness:
  "getConversion (store (exec two_jobs)) 3 = None \<and>
   processConversion song_run (store (exec two_jobs)) 3 = store (exec two_jobs)"
proof -
  have a: "getConversion (store (exec two_jobs)) 3 = None" by code_simp
  from processConversion_absent [OF a, of song_run] a show ?thesis by simp
qed

section \<open>The progress percentage\<close>

lemma Math_round_0: "Math_round 0 = 0"
  by (simp add: Math_round_def)

lemma percentage_bounds: "15 \<le> percentage q \<and> percentage q \<le> 95"
  by (cases q) (simp_all add: Math_round_0)

lemma Math_round_near: "x - 1 / 2 < real_of_int (Math_round x) \<and> real_of_int (Math_round x) \<le> x + 1 / 2"
  unfolding Math_round_def by linarith

lemma percentage_Number:
  "(x < 29 / 2 \<longrightarrow> percentage (Number x) = 15) \<and>
   (189 / 2 \<le> x \<longrightarrow> percentage (Number x) = 95) \<and>
   (29 / 2 \<le> x \<and> x < 189 / 2 \<longrightarrow>
      x - 1 / 2 < real_of_int (percentage (Number x)) \<and>
      real_of_int (percentage (Number x)) \<le> x + 1 / 2)"
proof -
  have lo: "Math_round x < 15" if "x < 29 / 2"
    using that unfolding Math_round_def by linarith
  have hi: "95 \<le> Math_round x" if "189 / 2 \<le> x"
    using that unfolding Math_round_def by linarith
  have mid: "15 \<le> Math_round x \<and> Math_round x \<le> 95" if "29 / 2 \<le> x" "x < 189 / 2"
    using that unfolding Math_round_def by linarith
  show ?thesis
  proof (intro conjI impI)
    assume "x < 29 / 2"
    from lo [OF this] show "percentage (Number x) = 15" by simp
  next
    assume "189 / 2 \<le> x"
    from hi [OF this] show "percentage (Number x) = 95" by simp
  next
    assume a: "29 / 2 \<le> x \<and> x < 189 / 2"
    with mid have "percentage (Number x) = Math_round x" by simp
    with Math_round_near [of x] show "x - 1 / 2 < real_of_int (percentage (Number x))"
      and "real_of_int (percentage (Number x)) \<le> x + 1 / 2" by simp_all
  qed
qed

lemma spread_progress: "spread c (upd_progress n) = c\<lparr>progress := Some n\<rparr>"
  by (simp add: spread_def spread_key_def upd_progress_def no_updates_def)

lemma callback_writes:
  "getInfo r = Returns raw \<Longrightarrow>
   take (length (progress_events r)) (drop 2 (pipeline_updates r k)) =
     map (\<lambda>p. upd_progress (percentage p)) (progress_events r)"
  by (simp add: pipeline_updates_def after_info_def Let_def)

lemma callback_writes_none: "getInfo r = Throws e \<Longrightarrow> drop 2 (pipeline_updates r k) = []"
  by (simp add: pipeline_updates_def)

text \<open>
  C7. Whatever a progress event delivers (a number, an infinity, \<open>NaN\<close> or
  \<open>undefined\<close>), the percentage is an integer from 15 to 95: 15 for \<open>undefined\<close>,
  \<open>NaN\<close>, minus infinity and every number below 14.5, 95 for plus infinity and every
  number from 94.5 on, and otherwise the number rounded to the nearest integer, a tie
  going up. The writes that the pipeline makes for the progress events of its run are
  the writes of these percentages, one per event and in their order; such a write, on a
  job that exists, returns and stores the job's record with the percentage as its
  progress, and this is how the event of that write changes the job on the server.
\<close>

theorem percentage_range:
  "15 \<le> percentage p \<and> percentage p \<le> 95 \<and>
   p_progress (upd_progress (percentage p)) = Some (Some (percentage p)) \<and>
   (\<forall>x. p = Number x \<and> 15 \<le> x \<and> x \<le> 95 \<longrightarrow>
      \<bar>real_of_int (percentage p) - x\<bar> \<le> 1 / 2) \<and>
   (\<forall>u \<in> set (take (length (progress_events r)) (after_info r k t)).
      \<exists>n. p_progress u = Some (Some n) \<and> 15 \<le> n \<and> n \<le> 95) \<and>
   percentage Undefined = 15 \<and> percentage NaN = 15 \<and>
   percentage NegInfinity = 15 \<and> percentage PosInfinity = 95 \<and>
   (\<forall>x. (x < 29 / 2 \<longrightarrow> percentage (Number x) = 15) \<and>
        (189 / 2 \<le> x \<longrightarrow> percentage (Number x) = 95) \<and>
        (29 / 2 \<le> x \<and> x < 189 / 2 \<longrightarrow>
           x - 1 / 2 < real_of_int (percentage (Number x)) \<and>
           real_of_int (percentage (Number x)) \<le> x + 1 / 2)) \<and>
   (\<forall>raw. getInfo r = Returns raw \<longrightarrow>
      take (length (progress_events r)) (drop 2 (pipeline_updates r k)) =
        map (\<lambda>q. upd_progress (percentage q)) (progress_events r)) \<and>
   (\<forall>c. getConversion s k = Some c \<longrightarrow>
      fst (updateConversion s k (upd_progress (percentage p))) =
        Some (c\<lparr>progress := Some (percentage p)\<rparr>) \<and>
      getConversion (snd (updateConversion s k (upd_progress (percentage p)))) k =
        Some (c\<lparr>progress := Some (percentage p)\<rparr>)) \<and>
   (\<forall>c us. job evs k = Some c \<and> pending (exec evs) k = upd_progress (percentage p) # us \<longrightarrow>
      job (evs @ [Advance k]) k = Some (c\<lparr>progress := Some (percentage p)\<rparr>))"
proof -
  have c: "\<bar>real_of_int (percentage (Number x)) - x\<bar> \<le> 1 / 2" if "15 \<le> x" "x \<le> 95" for x
  proof -
    have "15 \<le> Math_round x" "Math_round x \<le> 95"
      using that unfolding Math_round_def by linarith+
    then have "percentage (Number x) = Math_round x" by simp
    then show ?thesis unfolding Math_round_def by linarith
  qed
  have d: "take (length (progress_events r)) (after_info r k t) =
      map (\<lambda>p. upd_progress (percentage p)) (progress_events r)"
    by (simp add: after_info_def Let_def)
  have e: "\<forall>u \<in> set (take (length (progress_events r)) (after_info r k t)).
      \<exists>n. p_progress u = Some (Some n) \<and> 15 \<le> n \<and> n \<le> 95"
    using percentage_bounds by (auto simp: d upd_progress_def no_updates_def)
  have f: "fst (updateConversion s k (upd_progress (percentage p))) =
        Some (c\<lparr>progress := Some (percentage p)\<rparr>) \<and>
      getConversion (snd (updateConversion s k (upd_progress (percentage p)))) k =
        Some (c\<lparr>progress := Some (percentage p)\<rparr>)" if "getConversion s k = Some c" for c
    using that get_update_same [OF that, of "upd_progress (percentage p)"]
    by (simp add: updateConversion_def getConversion_def Let_def spread_progress)
  have g: "job (evs @ [Advance k]) k = Some (c\<lparr>progress := Some (percentage p)\<rparr>)"
    if "job evs k = Some c" "pending (exec evs) k = upd_progress (percentage p) # us" for c us
    using that by (simp add: job_def exec_snoc get_update_same spread_progress)
  have h: "p_progress (upd_progress (percentage p)) = Some (Some (percentage p))"
    by (simp add: upd_progress_def no_updates_def)
  have i: "percentage Undefined = 15" "percentage NaN = 15" "percentage NegInfinity = 15"
    "percentage PosInfinity = 95"
    by (simp_all add: Math_round_0)
  from c have c': "\<forall>x. p = Number x \<and> 15 \<le> x \<and> x \<le> 95 \<longrightarrow>
      \<bar>real_of_int (percentage p) - x\<bar> \<le> 1 / 2" by blast
  from f have f': "\<forall>c. getConversion s k = Some c \<longrightarrow>
      fst (updateConversion s k (upd_progress (percentage p))) =
        Some (c\<lparr>progress := Some (percentage p)\<rparr>) \<and>
      getConversion (snd (updateConversion s k (upd_progress (percentage p)))) k =
        Some (c\<lparr>progress := Some (percentage p)\<rparr>)" by blast
  from g have g': "\<forall>c us. job evs k = Some c \<and>
      pending (exec evs) k = upd_progress (percentage p) # us \<longrightarrow>
      job (evs @ [Advance k]) k = Some (c\<lparr>progress := Some (percentage p)\<rparr>)" by blast
  have j: "\<forall>raw. getInfo r = Returns raw \<longrightarrow>
      take (length (progress_events r)) (drop 2 (pipeline_updates r k)) =
        map (\<lambda>q. upd_progress (percentage q)) (progress_events r)"
    by (simp add: callback_writes)
  have l: "\<forall>x. (x < 29 / 2 \<longrightarrow> percentage (Number x) = 15) \<and>
        (189 / 2 \<le> x \<longrightarrow> percentage (Number x) = 95) \<and>
        (29 / 2 \<le> x \<and> x < 189 / 2 \<longrightarrow>
           x - 1 / 2 < real_of_int (percentage (Number x)) \<and>
           real_of_int (percentage (Number x)) \<le> x + 1 / 2)"
    using percentage_Number by blast
  from percentage_bounds [of p] h c' e i l j f' g' show ?thesis by (intro conjI) simp_all
qed

theorem percentage_range_witness:
  "percentage (Number 97.5) = 95 \<and> percentage Undefined = 15 \<and> percentage (Number 40.5) = 41 \<and>
   percentage (Number 3) = 15 \<and> percentage (Number 14.5) = 15 \<and> percentage (Number 94.5) = 95 \<and>
   percentage (Number 40) = 40 \<and>
   map p_progress (take (length (progress_events song_run)) (after_info song_run 1 ''Song'')) =
     [Some (Some 40), Some (Some 15), Some (Some 95)] \<and>
   map_option progress (job (take 5 two_jobs) 1) = Some (Some 15) \<and>
   pending (exec (take 5 two_jobs)) 1 =
     [upd_progress 40, upd_progress 15, upd_progress 95,
      upd_completed ''1_1700.mp3'' ''Song_1.mp3'' 4096 1800] \<and>
   map_option progress (job (take 5 two_jobs @ [Advance 1]) 1) = Some (Some 40)"
proof -
  let ?c = "\<lparr>conv_id = 1, url = ''https://youtu.be/dQw4w9WgXcQ'',
      title = Some ''Song'', status = ''processing'', progress = Some 15, filePath = None,
      fileName = None, fileSize = None, errorMessage = None, createdAt = Some 7,
      completedAt = None\<rparr>"
  let ?us = "[upd_progress 15, upd_progress 95,
      upd_completed ''1_1700.mp3'' ''Song_1.mp3'' 4096 1800]"
  have a: "percentage (Number 97.5) = 95 \<and> percentage Undefined = 15 \<and>
    percentage (Number 40.5) = 41 \<and> percentage (Number 3) = 15 \<and>
    percentage (Number 14.5) = 15 \<and> percentage (Number 94.5) = 95"
    by (simp add: Math_round_def)
  have a40: "percentage (Number 40) = 40" by (simp add: Math_round_def)
  have b: "map p_progress (take (length (progress_events song_run)) (after_info song_run 1 ''Song'')) =
     [Some (Some 40), Some (Some 15), Some (Some 95)]"
    by code_simp
  have c: "job (take 5 two_jobs) 1 = Some ?c" by code_simp
  have d: "pending (exec (take 5 two_jobs)) 1 = upd_progress 40 # ?us" by code_simp
  have d': "pending (exec (take 5 two_jobs)) 1 = upd_progress (percentage (Number 40)) # ?us"
    by (simp only: d a40)
  have "job (take 5 two_jobs @ [Advance 1]) 1 =
      Some (?c\<lparr>progress := Some (percentage (Number 40))\<rparr>)"
    using percentage_range [of "Number 40" song_run 1 "''Song''" "store (exec (take 5 two_jobs))"
        "take 5 two_jobs"] c d'
    by blast
  then have e: "map_option progress (job (take 5 two_jobs @ [Advance 1]) 1) = Some (Some 40)"
    unfolding a40 by simp
  have f: "map_option progress (job (take 5 two_jobs) 1) = Some (Some 15)"
    unfolding c by simp
  from a a40 b f d e show ?thesis by (intro conjI) (simp_all only: simp_thms)
qed

section \<open>The life of a job\<close>

lemma step_keeps_others:
  assumes "getConversion (store sv) k = Some c" "k < currentConversionId (store sv)"
    and "getConversion (store (step sv e)) k = Some c'" and "e \<noteq> Advance k \<or> pending sv k = []"
  shows "c' = c"
proof (cases e)
  case (Create u now r)
  with assms show ?thesis by (simp add: step_Create get_create_other)
next
  case (Advance j)
  show ?thesis
  proof (cases "pending sv j")
    case Nil
    with Advance assms show ?thesis by simp
  next
    case (Cons u us)
    with Advance assms have "j \<noteq> k" by auto
    with Advance Cons assms show ?thesis by (simp add: get_update_other)
  qed
next
  case (Delete j)
  with assms have "j \<noteq> k" by (auto simp: get_delete_same)
  with Delete assms show ?thesis by (simp add: get_delete_other)
qed

lemma status_in_job_ok:
  "job_ok c us \<Longrightarrow>
   status c = ''pending'' \<or> status c = ''processing'' \<or> status c = ''completed'' \<or> status c = ''failed''"
  by (auto simp: job_ok_def split: if_splits)

lemma write_forward:
  assumes "job_ok c (u # us)"
  shows "stage (status c) \<le> stage (status (spread c u)) \<and>
     stage (status (spread c u)) \<le> stage (status c) + 1 \<and> \<not> terminal (status c)"
proof -
  have st: "status c = ''pending'' \<or> status c = ''processing''"
    using assms by (auto simp: job_ok_def split: if_splits)
  then show ?thesis
  proof
    assume p: "status c = ''pending''"
    with assms have "starts u" by (auto simp: job_ok_def)
    with p show ?thesis
      by (simp add: spread_def spread_key_def starts_def stage_def terminal_def)
  next
    assume p: "status c = ''processing''"
    with assms have "rest_ok (u # us)" by (auto simp: job_ok_def)
    then have "completes u \<or> fails u \<or> quiet u" by (cases us) auto
    with p show ?thesis
      by (auto simp: spread_def spread_key_def completes_def fails_def quiet_def stage_def
          terminal_def)
  qed
qed

lemma step_forward:
  assumes ok: "server_ok sv" and c: "getConversion (store sv) k = Some c"
    and c': "getConversion (store (step sv e)) k = Some c'"
  shows "stage (status c) \<le> stage (status c') \<and> stage (status c') \<le> stage (status c) + 1 \<and>
     (terminal (status c) \<longrightarrow> status c' = status c)"
proof (cases "e = Advance k \<and> pending sv k \<noteq> []")
  case True
  then obtain u us where p: "pending sv k = u # us" by (cases "pending sv k") auto
  from ok c p have j: "job_ok c (u # us)" by (auto dest: server_ok_job)
  from True c c' p have "c' = spread c u" by (simp add: get_update_same)
  with write_forward [OF j] show ?thesis by simp
next
  case False
  then have "e \<noteq> Advance k \<or> pending sv k = []" by auto
  from step_keeps_others [OF c server_ok_counter [OF ok c] c' this] show ?thesis by simp
qed

lemma job_snoc: "job (evs @ [e]) k = getConversion (store (step (exec evs) e)) k"
  by (simp add: job_def exec_snoc)

lemma counter_step: "currentConversionId (store sv) \<le> currentConversionId (store (step sv e))"
proof (cases e)
  case (Create u now r)
  then show ?thesis by (simp add: step_Create counter_create)
next
  case (Advance j)
  then show ?thesis by (cases "pending sv j") (simp_all add: counter_update)
next
  case (Delete j)
  then show ?thesis by (simp add: counter_delete)
qed

lemma counter_steps:
  "currentConversionId (store sv) \<le> currentConversionId (store (foldl step sv evs))"
proof (induction evs rule: rev_induct)
  case Nil
  then show ?case by simp
next
  case (snoc e evs)
  from snoc counter_step [of "foldl step sv evs" e] show ?case by simp
qed

lemma steps_forward:
  "job evs k = Some c \<Longrightarrow> job (evs @ evs') k = Some c' \<Longrightarrow>
   stage (status c) \<le> stage (status c') \<and> (terminal (status c) \<longrightarrow> status c' = status c)"
proof (induction evs' arbitrary: c' rule: rev_induct)
  case Nil
  then show ?case by simp
next
  case (snoc e evs')
  let ?sv = "exec (evs @ evs')"
  from snoc.prems(2) have after: "getConversion (store (step ?sv e)) k = Some c'"
    by (simp add: job_def exec_def)
  show ?case
  proof (cases "job (evs @ evs') k")
    case None
    have "k < currentConversionId (store (exec evs))"
      using snoc.prems(1) by (rule job_below_counter)
    also have "\<dots> \<le> currentConversionId (store ?sv)"
      using counter_steps [of "exec evs" evs'] by (simp add: exec_def)
    finally have "k < currentConversionId (store ?sv)" .
    moreover from None have "getConversion (store ?sv) k = None" by (simp add: job_def)
    ultimately have "getConversion (store (step ?sv e)) k = None"
      by (simp add: absent_step)
    with after show ?thesis by simp
  next
    case (Some c'')
    from snoc.IH [OF snoc.prems(1) Some]
    have a: "stage (status c) \<le> stage (status c'')"
      and b: "terminal (status c) \<longrightarrow> status c'' = status c" by simp_all
    from Some have "getConversion (store ?sv) k = Some c''" by (simp add: job_def)
    from step_forward [OF server_ok_exec this after]
    have "stage (status c'') \<le> stage (status c')"
      and "terminal (status c'') \<longrightarrow> status c' = status c''" by simp_all
    with a b show ?thesis by auto
  qed
qed

text \<open>
  C2. A job that is created has the status pending. From then on the status of the job
  is one of pending, processing, completed and failed; between any two moments at which
  the job is in the store its stage (pending, then processing, then a terminal status)
  does not go back, a status that is completed or failed is the status at every later
  moment, and one event advances the stage by one step at most.
\<close>

theorem status_moves_forward:
  "map_option status (job (evs @ [Create u now r]) (currentConversionId (store (exec evs)))) =
     Some ''pending'' \<and>
   (\<forall>c c'. job evs k = Some c \<and> job (evs @ evs') k = Some c' \<longrightarrow>
      status c \<in> {''pending'', ''processing'', ''completed'', ''failed''} \<and>
      stage (status c) \<le> stage (status c') \<and>
      (terminal (status c) \<longrightarrow> status c' = status c)) \<and>
   (\<forall>c c'. job evs k = Some c \<and> job (evs @ [e]) k = Some c' \<longrightarrow>
      stage (status c') \<le> stage (status c) + 1)"
proof -
  have "job (evs @ [Create u now r]) (currentConversionId (store (exec evs))) =
      Some (fst (createConversion (store (exec evs)) u now))"
    by (simp add: job_snoc step_Create get_create_same)
  then have a: "map_option status (job (evs @ [Create u now r])
      (currentConversionId (store (exec evs)))) = Some ''pending''"
    by (simp add: created_pending)
  have b: "status c \<in> {''pending'', ''processing'', ''completed'', ''failed''}"
    if "job evs k = Some c" for c
    using status_in_job_ok [OF job_ok_exec [OF that]] by auto
  have c: "stage (status c') \<le> stage (status c) + 1"
    if "job evs k = Some c" "job (evs @ [e]) k = Some c'" for c c'
  proof -
    from that have "getConversion (store (exec evs)) k = Some c"
      "getConversion (store (step (exec evs) e)) k = Some c'"
      by (simp_all add: job_def exec_snoc)
    from step_forward [OF server_ok_exec this] show ?thesis by simp
  qed
  from a b c steps_forward [of evs k _ evs'] show ?thesis by blast
qed

theorem status_moves_forward_witness:
  "map_option status (job ([] @ [Create ''https://youtu.be/dQw4w9WgXcQ'' 7 song_run]) 1) = Some ''pending'' \<and>
   map_option status (job (take 4 two_jobs) 1) = Some ''processing'' \<and>
   map_option status (job (take 4 two_jobs @ drop 4 two_jobs) 1) = Some ''completed'' \<and>
   map_option status (job (take 4 two_jobs) 2) = Some ''processing'' \<and>
   map_option status (job (take 4 two_jobs @ [Advance 2]) 2) = Some ''failed'' \<and>
   map_option status (job (take 4 two_jobs @ drop 4 two_jobs) 2) = Some ''failed''"
proof -
  have a: "map_option status (job (take 4 two_jobs) 1) = Some ''processing''"
    "map_option status (job (take 4 two_jobs @ drop 4 two_jobs) 1) = Some ''completed''"
    "map_option status (job (take 4 two_jobs) 2) = Some ''processing''"
    "map_option status (job (take 4 two_jobs @ [Advance 2]) 2) = Some ''failed''"
    "map_option status (job (take 4 two_jobs @ drop 4 two_jobs) 2) = Some ''failed''"
    by code_simp+
  have b: "currentConversionId (store (exec [])) = 1" by code_simp
  from status_moves_forward [of "[]" "''https://youtu.be/dQw4w9WgXcQ''" 7 song_run 1 "[]" "Advance 1"] a b
  show ?thesis by simp
qed

text \<open>
  C3. A job in the store never has both an artifact location and an error detail, and
  has either only in a terminal status. A completed job has its artifact location,
  display name, size and completion time, and the progress 100; a failed job has an
  error detail and no artifact location, display name or size.
\<close>

theorem job_record_consistent:
  assumes "job evs k = Some c"
  shows "\<not> (filePath c \<noteq> None \<and> errorMessage c \<noteq> None) \<and>
     (filePath c \<noteq> None \<or> errorMessage c \<noteq> None \<longrightarrow> terminal (status c)) \<and>
     (status c = ''completed'' \<longrightarrow>
        filePath c \<noteq> None \<and> fileName c \<noteq> None \<and> fileSize c \<noteq> None \<and>
        completedAt c \<noteq> None \<and> progress c = Some 100) \<and>
     (status c = ''failed'' \<longrightarrow>
        errorMessage c \<noteq> None \<and> filePath c = None \<and> fileName c = None \<and> fileSize c = None)"
proof -
  have ok: "job_ok c (pending (exec evs) k)" using assms by (rule job_ok_exec)
  from status_in_job_ok [OF ok] consider
    "status c = ''pending''" | "status c = ''processing''" | "status c = ''completed''" |
    "status c = ''failed''" by blast
  then show ?thesis
  proof cases
    case 1
    with ok have "blank c" by (simp add: job_ok_def)
    with 1 show ?thesis by (simp add: blank_def)
  next
    case 2
    with ok have "blank c" by (simp add: job_ok_def)
    with 2 show ?thesis by (simp add: blank_def)
  next
    case 3
    with ok have "filePath c \<noteq> None \<and> fileName c \<noteq> None \<and> fileSize c \<noteq> None \<and>
        completedAt c \<noteq> None \<and> progress c = Some 100 \<and> errorMessage c = None"
      by (simp add: job_ok_def)
    with 3 show ?thesis by (simp add: terminal_def)
  next
    case 4
    with ok have "errorMessage c \<noteq> None \<and> filePath c = None \<and> fileName c = None \<and>
        fileSize c = None"
      by (simp add: job_ok_def)
    with 4 show ?thesis by (simp add: terminal_def)
  qed
qed

theorem job_record_consistent_witness:
  "job two_jobs 1 = Some \<lparr>conv_id = 1, url = ''https://youtu.be/dQw4w9WgXcQ'', title = Some ''Song'',
     status = ''completed'', progress = Some 100, filePath = Some ''1_1700.mp3'',
     fileName = Some ''Song_1.mp3'', fileSize = Some 4096, errorMessage = None,
     createdAt = Some 7, completedAt = Some 1800\<rparr> \<and>
   job two_jobs 2 = Some \<lparr>conv_id = 2, url = ''https://youtu.be/9bZkp7q19f0'', title = None,
     status = ''failed'', progress = Some 5, filePath = None, fileName = None,
     fileSize = None, errorMessage = Some ''Video unavailable'', createdAt = Some 8,
     completedAt = None\<rparr>"
proof -
  have a: "job two_jobs 1 = Some \<lparr>conv_id = 1, url = ''https://youtu.be/dQw4w9WgXcQ'', title = Some ''Song'',
     status = ''completed'', progress = Some 100, filePath = Some ''1_1700.mp3'',
     fileName = Some ''Song_1.mp3'', fileSize = Some 4096, errorMessage = None,
     createdAt = Some 7, completedAt = Some 1800\<rparr>"
    by code_simp
  have b: "job two_jobs 2 = Some \<lparr>conv_id = 2, url = ''https://youtu.be/9bZkp7q19f0'', title = None,
     status = ''failed'', progress = Some 5, filePath = None, fileName = None,
     fileSize = None, errorMessage = Some ''Video unavailable'', createdAt = Some 8,
     completedAt = None\<rparr>"
    by code_simp
  from job_record_consistent [OF a] job_record_consistent [OF b] a b show ?thesis by simp
qed

section \<open>Progress\<close>

lemma progress_writes_events:
  "progress_writes (map (\<lambda>p. upd_progress (percentage p)) ps @ us) =
     map percentage ps @ progress_writes us"
  by (induction ps) (simp_all add: upd_progress_def no_updates_def)

lemma progress_writes_after_info:
  "\<exists>tl. progress_writes (after_info r k t) = map percentage (progress_events r) @ tl \<and>
     (tl = [] \<or> tl = [100])"
  by (simp add: after_info_def Let_def progress_writes_events upd_failed_def upd_completed_def
      no_updates_def split: attempt.splits)

lemma sorted_after_info:
  assumes "steady r"
  shows "sorted (15 # progress_writes (after_info r k t))"
proof -
  obtain tl where w: "progress_writes (after_info r k t) = map percentage (progress_events r) @ tl"
    and tl: "tl = [] \<or> tl = [100]"
    using progress_writes_after_info by blast
  have "\<forall>x \<in> set (map percentage (progress_events r)). 15 \<le> x \<and> x \<le> 95"
    using percentage_bounds by auto
  with assms tl show ?thesis
    unfolding w steady_def by (auto simp: sorted_append)
qed

lemma sorted_pipeline_updates:
  assumes "steady r"
  shows "sorted (0 # progress_writes (pipeline_updates r k))"
proof (cases "getInfo r")
  case (Throws e)
  then show ?thesis
    by (simp add: pipeline_updates_def upd_processing_def upd_failed_def no_updates_def)
next
  case (Returns raw)
  let ?ws = "progress_writes (after_info r k (sanitize raw))"
  from sorted_after_info [OF assms, of k "sanitize raw"]
  have "\<forall>x \<in> set ?ws. 15 \<le> x" and "sorted ?ws" by simp_all
  then have "sorted (0 # 5 # 15 # ?ws)" by fastforce
  moreover have "progress_writes (pipeline_updates r k) = 5 # 15 # ?ws"
    using Returns
    by (simp add: pipeline_updates_def Let_def upd_processing_def upd_title_def no_updates_def)
  ultimately show ?thesis by simp
qed

lemma progress_value_spread:
  "progress_value (spread c u) =
     (case p_progress u of None \<Rightarrow> progress_value c
      | Some v \<Rightarrow> (case v of None \<Rightarrow> 0 | Some n \<Rightarrow> n))"
  by (simp add: progress_value_def spread_def spread_key_def split: option.splits)

lemma write_paced:
  assumes "sorted (progress_value c # progress_writes (u # us))"
  shows "progress_value c \<le> progress_value (spread c u) \<and>
     sorted (progress_value (spread c u) # progress_writes us)"
  using assms by (auto simp: progress_value_spread split: option.splits)

lemma runs_append: "runs (evs @ evs') = runs evs @ runs evs'"
  by (induction evs rule: runs.induct) simp_all

lemma counter_runs: "currentConversionId (store (exec evs)) = 1 + int (length (runs evs))"
proof (induction evs rule: rev_induct)
  case Nil
  then show ?case by (simp add: exec_Nil boot_def new_MemStorage_def)
next
  case (snoc e evs)
  then show ?case
  proof (cases e)
    case (Create u now r)
    with snoc show ?thesis by (simp add: exec_snoc step_Create counter_create runs_append)
  next
    case (Advance j)
    with snoc show ?thesis
      by (cases "pending (exec evs) j") (simp_all add: exec_snoc counter_update runs_append)
  next
    case (Delete j)
    with snoc show ?thesis by (simp add: exec_snoc counter_delete runs_append)
  qed
qed

lemma nat_counter: "nat (1 + int n) = Suc n"
  by simp

lemma run_of_created:
  "run_of (evs @ [Create u now r]) (currentConversionId (store (exec evs))) = Some r"
  by (simp add: run_of_def counter_runs runs_append nth_append nat_counter)

lemma run_of_snoc:
  assumes "k < currentConversionId (store (exec evs))"
  shows "run_of (evs @ [e]) k = run_of evs k"
proof (cases e)
  case (Create u now r)
  with assms show ?thesis
    by (auto simp: run_of_def counter_runs runs_append nth_append)
next
  case (Advance j)
  then show ?thesis by (simp add: run_of_def runs_append)
next
  case (Delete j)
  then show ?thesis by (simp add: run_of_def runs_append)
qed

lemma counter_positive: "1 \<le> currentConversionId (store (exec evs))"
  by (simp add: counter_runs)

lemma job_id_positive: "job evs k = Some c \<Longrightarrow> 1 \<le> k"
proof (induction evs arbitrary: c rule: rev_induct)
  case Nil
  then show ?case by (simp add: job_def exec_Nil boot_def new_MemStorage_def getConversion_def)
next
  case (snoc e evs)
  show ?case
  proof (cases "job evs k")
    case (Some c0)
    with snoc.IH show ?thesis by simp
  next
    case None
    show ?thesis
    proof (rule ccontr)
      assume "\<not> 1 \<le> k"
      with counter_positive [of evs] have "k < currentConversionId (store (exec evs))" by simp
      with None have "getConversion (store (step (exec evs) e)) k = None"
        by (simp add: job_def absent_step)
      with snoc.prems show False by (simp add: job_snoc)
    qed
  qed
qed

lemma job_has_run: "job evs k = Some c \<Longrightarrow> \<exists>r. run_of evs k = Some r"
  using job_id_positive [of evs k c] job_below_counter [of evs k c]
  by (simp add: run_of_def counter_runs)

lemma step_keeps_pending:
  assumes "k < currentConversionId (store sv)" "e \<noteq> Advance k \<or> pending sv k = []"
  shows "pending (step sv e) k = pending sv k"
proof (cases e)
  case (Create u now r)
  with assms show ?thesis by (simp add: step_Create)
next
  case (Advance j)
  with assms show ?thesis by (cases "pending sv j") auto
next
  case (Delete j)
  then show ?thesis by simp
qed

lemma job_paced:
  "job evs k = Some c \<Longrightarrow> run_of evs k = Some r \<Longrightarrow> steady r \<Longrightarrow>
   sorted (progress_value c # progress_writes (pending (exec evs) k))"
proof (induction evs arbitrary: c rule: rev_induct)
  case Nil
  then show ?case by (simp add: job_def exec_Nil boot_def new_MemStorage_def getConversion_def)
next
  case (snoc e evs)
  let ?sv = "exec evs"
  from snoc.prems(1) have g: "getConversion (store (step ?sv e)) k = Some c"
    by (simp add: job_snoc)
  show ?case
  proof (cases "job evs k")
    case None
    then have n: "getConversion (store ?sv) k = None" by (simp add: job_def)
    have nb: "\<not> k < currentConversionId (store ?sv)"
      using absent_step [OF n, of e] g by auto
    show ?thesis
    proof (cases e)
      case (Create u now r')
      with g n have k: "k = currentConversionId (store ?sv)"
        by (cases "k = currentConversionId (store ?sv)") (simp_all add: step_Create get_create_other)
      with g Create have "c = fst (createConversion (store ?sv) u now)"
        by (simp add: step_Create get_create_same)
      then have p0: "progress_value c = 0" by (simp add: progress_value_def created_progress)
      from k Create snoc.prems(2) have "r' = r" by (simp add: run_of_created)
      with snoc.prems(3) k Create p0 sorted_pipeline_updates [of r k] show ?thesis
        by (simp add: exec_snoc step_Create)
    next
      case (Advance j)
      with g n show ?thesis
        by (cases "pending ?sv j"; cases "j = k") (simp_all add: update_absent get_update_other)
    next
      case (Delete j)
      with g n show ?thesis
        by (cases "j = k") (simp_all add: get_delete_same get_delete_other)
    qed
  next
    case (Some c0)
    then have c0: "getConversion (store ?sv) k = Some c0" by (simp add: job_def)
    have below: "k < currentConversionId (store ?sv)" using Some by (rule job_below_counter)
    with snoc.prems(2) have "run_of evs k = Some r" by (simp add: run_of_snoc)
    from snoc.IH [OF Some this snoc.prems(3)]
    have old: "sorted (progress_value c0 # progress_writes (pending ?sv k))" .
    show ?thesis
    proof (cases "e = Advance k \<and> pending ?sv k \<noteq> []")
      case True
      then obtain u us where pe: "pending ?sv k = u # us" by (cases "pending ?sv k") auto
      with True c0 g have "c = spread c0 u" by (simp add: get_update_same)
      with write_paced [of c0 u us] old pe True show ?thesis by (simp add: exec_snoc)
    next
      case False
      then have ne: "e \<noteq> Advance k \<or> pending ?sv k = []" by auto
      from step_keeps_others [OF c0 below g ne] have "c = c0" .
      with step_keeps_pending [OF below ne] old show ?thesis by (simp add: exec_snoc)
    qed
  qed
qed

lemma job_pending_of_run:
  "job evs k = Some c \<Longrightarrow> run_of evs k = Some r \<Longrightarrow>
   \<exists>n. pending (exec evs) k = drop n (pipeline_updates r k)"
proof (induction evs arbitrary: c rule: rev_induct)
  case Nil
  then show ?case by (simp add: job_def exec_Nil boot_def new_MemStorage_def getConversion_def)
next
  case (snoc e evs)
  let ?sv = "exec evs"
  from snoc.prems(1) have g: "getConversion (store (step ?sv e)) k = Some c"
    by (simp add: job_snoc)
  show ?case
  proof (cases "job evs k")
    case None
    then have n: "getConversion (store ?sv) k = None" by (simp add: job_def)
    show ?thesis
    proof (cases e)
      case (Create u now r')
      with g n have k: "k = currentConversionId (store ?sv)"
        by (cases "k = currentConversionId (store ?sv)") (simp_all add: step_Create get_create_other)
      from k Create snoc.prems(2) have "r' = r" by (simp add: run_of_created)
      with k Create have "pending (exec (evs @ [e])) k = drop 0 (pipeline_updates r k)"
        by (simp add: exec_snoc step_Create)
      then show ?thesis by blast
    next
      case (Advance j)
      with g n show ?thesis
        by (cases "pending ?sv j"; cases "j = k") (simp_all add: update_absent get_update_other)
    next
      case (Delete j)
      with g n show ?thesis
        by (cases "j = k") (simp_all add: get_delete_same get_delete_other)
    qed
  next
    case (Some c0)
    have below: "k < currentConversionId (store ?sv)" using Some by (rule job_below_counter)
    with snoc.prems(2) have "run_of evs k = Some r" by (simp add: run_of_snoc)
    from snoc.IH [OF Some this] obtain n
      where old: "pending ?sv k = drop n (pipeline_updates r k)" by blast
    show ?thesis
    proof (cases "e = Advance k \<and> pending ?sv k \<noteq> []")
      case True
      then obtain u us where pe: "pending ?sv k = u # us" by (cases "pending ?sv k") auto
      from old pe have "drop n (pipeline_updates r k) = u # us" by simp
      then have "tl (drop n (pipeline_updates r k)) = us" by simp
      moreover have "drop (Suc n) (pipeline_updates r k) = tl (drop n (pipeline_updates r k))"
        by (simp add: drop_Suc tl_drop)
      ultimately have "us = drop (Suc n) (pipeline_updates r k)" by simp
      with True pe have "pending (exec (evs @ [e])) k = drop (Suc n) (pipeline_updates r k)"
        by (simp add: exec_snoc)
      then show ?thesis by blast
    next
      case False
      then have ne: "e \<noteq> Advance k \<or> pending ?sv k = []" by auto
      from step_keeps_pending [OF below ne] old
      have "pending (exec (evs @ [e])) k = drop n (pipeline_updates r k)"
        by (simp add: exec_snoc)
      then show ?thesis by blast
    qed
  qed
qed

text \<open>
  C4, as the code has it. A job in the store has the run with which it was created, and
  the writes that its pipeline has still to make are the rest of the writes of that run.
  When the percentages of the progress events of that run, after rounding and clamping,
  come in non-decreasing order, no event lowers the persisted progress of the job,
  whatever the runs of the other jobs are. Without that, the pipeline writes each
  percentage as it arrives.
\<close>

theorem progress_never_lowered:
  assumes "job evs k = Some c" and "job (evs @ [e]) k = Some c'"
  shows "\<exists>r n. run_of evs k = Some r \<and>
     pending (exec evs) k = drop n (pipeline_updates r k) \<and>
     (steady r \<longrightarrow> progress_value c \<le> progress_value c')"
proof -
  let ?sv = "exec evs"
  from job_has_run [OF assms(1)] obtain r where r: "run_of evs k = Some r" by blast
  from job_pending_of_run [OF assms(1) r] obtain n
    where n: "pending ?sv k = drop n (pipeline_updates r k)" by blast
  from assms have c: "getConversion (store ?sv) k = Some c"
    and c': "getConversion (store (step ?sv e)) k = Some c'"
    by (simp_all add: job_def exec_snoc)
  have "progress_value c \<le> progress_value c'" if st: "steady r"
  proof (cases "e = Advance k \<and> pending ?sv k \<noteq> []")
    case True
    then obtain u us where pe: "pending ?sv k = u # us" by (cases "pending ?sv k") auto
    with True c c' have "c' = spread c u" by (simp add: get_update_same)
    with write_paced [of c u us] job_paced [OF assms(1) r st] pe
    show ?thesis by simp
  next
    case False
    then have "e \<noteq> Advance k \<or> pending ?sv k = []" by auto
    from step_keeps_others [OF c server_ok_counter [OF server_ok_exec c] c' this]
    show ?thesis by simp
  qed
  with r n show ?thesis by blast
qed

theorem progress_never_lowered_witness:
  "run_of mixed 1 = Some jumpy_run \<and> \<not> steady jumpy_run \<and>
   run_of mixed 2 = Some calm_run \<and> steady calm_run \<and>
   map_option progress_value (job mixed 1) = Some 30 \<and>
   map_option progress_value (job mixed 2) = Some 20 \<and>
   map_option progress_value (job (mixed @ [Advance 2]) 2) = Some 60"
proof -
  have t: "run_of mixed 1 = Some jumpy_run" "\<not> steady jumpy_run"
    "run_of mixed 2 = Some calm_run" "steady calm_run"
    "map_option progress_value (job mixed 1) = Some 30"
    by code_simp+
  have a: "job mixed 2 = Some \<lparr>conv_id = 2, url = ''https://youtu.be/9bZkp7q19f0'',
      title = Some ''Lullaby'', status = ''processing'', progress = Some 20, filePath = None,
      fileName = None, fileSize = None, errorMessage = None, createdAt = Some 10,
      completedAt = None\<rparr>"
    by code_simp
  have b: "job (mixed @ [Advance 2]) 2 = Some \<lparr>conv_id = 2,
      url = ''https://youtu.be/9bZkp7q19f0'', title = Some ''Lullaby'', status = ''processing'',
      progress = Some 60, filePath = None, fileName = None, fileSize = None,
      errorMessage = None, createdAt = Some 10, completedAt = None\<rparr>"
    by code_simp
  from progress_never_lowered [OF a b] t a b show ?thesis
    by (simp add: progress_value_def)
qed

text \<open>
  C4 as stated fails: the pipeline writes the percentage of each progress event as it
  arrives. With the events 50 and 30 the job, in processing, goes from 50 back to 30.
\<close>

theorem progress_lowered_counterexample:
  "map_option status
     (job [Create ''https://youtu.be/dQw4w9WgXcQ'' 9 jumpy_run, Advance 1, Advance 1, Advance 1] 1) =
     Some ''processing'' \<and>
   map_option progress_value
     (job [Create ''https://youtu.be/dQw4w9WgXcQ'' 9 jumpy_run, Advance 1, Advance 1, Advance 1] 1) =
     Some 50 \<and>
   map_option status
     (job ([Create ''https://youtu.be/dQw4w9WgXcQ'' 9 jumpy_run, Advance 1, Advance 1, Advance 1] @
        [Advance 1]) 1) = Some ''processing'' \<and>
   map_option progress_value
     (job ([Create ''https://youtu.be/dQw4w9WgXcQ'' 9 jumpy_run, Advance 1, Advance 1, Advance 1] @
        [Advance 1]) 1) = Some 30"
  by code_simp


section \<open>Bulk download\<close>

lemma valid_conversion_claimed:
  "valid_conversion (lookup s i) = (claimed_entry s i \<noteq> None)"
  by (auto simp: valid_conversion_def claimed_entry_def split: option.splits)

lemma filter_valid_empty:
  "(filter valid_conversion (map (lookup s) ids) = []) = (List.map_filter (claimed_entry s) ids = [])"
  by (induction ids) (simp_all add: valid_conversion_claimed split: option.splits)

lemma served_invalid:
  assumes "\<not> valid_conversion (lookup s i)"
  shows "served_entry file_exists s i = None"
proof -
  from assms have "claimed_entry s i = None"
    using valid_conversion_claimed [of s i] by blast
  then show ?thesis by (simp add: served_entry_def)
qed

lemma archive_files_valid:
  assumes "valid_conversion (lookup s i)"
  shows "archive_files file_exists (lookup s i # rest) =
     (case served_entry file_exists s i of
        None \<Rightarrow> archive_files file_exists rest
      | Some e \<Rightarrow> e # archive_files file_exists rest)"
proof -
  from assms obtain c p where c: "lookup s i = Some c" and p: "filePath c = Some p"
    and st: "status c = ''completed''"
    by (auto simp: valid_conversion_def split: option.splits)
  then have "claimed_entry s i = Some (p, entry_name c)" by (simp add: claimed_entry_def)
  with c p show ?thesis by (simp add: served_entry_def)
qed

lemma archive_files_served:
  "archive_files file_exists (filter valid_conversion (map (lookup s) ids)) =
     List.map_filter (served_entry file_exists s) ids"
proof (induction ids)
  case Nil
  then show ?case by simp
next
  case (Cons i ids)
  show ?case
  proof (cases "valid_conversion (lookup s i)")
    case True
    with Cons archive_files_valid [OF True] show ?thesis
      by (cases "served_entry file_exists s i") simp_all
  next
    case False
    with Cons served_invalid [OF False] show ?thesis by simp
  qed
qed

lemma served_all:
  assumes "\<forall>e \<in> set (List.map_filter (claimed_entry s) ids). fst e \<noteq> [] \<and> file_exists (fst e)"
  shows "List.map_filter (served_entry file_exists s) ids = List.map_filter (claimed_entry s) ids"
  using assms
proof (induction ids)
  case Nil
  then show ?case by simp
next
  case (Cons i ids)
  then show ?case
    by (cases "claimed_entry s i") (auto simp: served_entry_def)
qed

text \<open>
  C6, as the code has it. A body whose ids are not an array, or an empty one, is a
  validation error (400). Otherwise the handler answers not found (404) when no
  identifier resolves to a completed job with an artifact location; else it sends an
  archive with one entry, in input order, for each identifier that resolves to a
  completed job with an artifact location whose storage key is not empty and whose file
  exists at that moment. When every such file exists, this is the archive that the
  specification describes.
\<close>

theorem download_bulk_entries:
  "post_download_bulk file_exists s None = Failure 400 ''Invalid file IDs'' \<and>
   post_download_bulk file_exists s (Some []) = Failure 400 ''Invalid file IDs'' \<and>
   (ids \<noteq> [] \<longrightarrow>
      post_download_bulk file_exists s (Some ids) =
        (if List.map_filter (claimed_entry s) ids = []
         then Failure 404 ''No valid files found for download''
         else Zip_archive (List.map_filter (served_entry file_exists s) ids))) \<and>
   (ids \<noteq> [] \<and>
    (\<forall>e \<in> set (List.map_filter (claimed_entry s) ids). fst e \<noteq> [] \<and> file_exists (fst e)) \<longrightarrow>
      post_download_bulk file_exists s (Some ids) = claimed_archive s ids)"
proof -
  have a: "post_download_bulk file_exists s (Some ids) =
        (if List.map_filter (claimed_entry s) ids = []
         then Failure 404 ''No valid files found for download''
         else Zip_archive (List.map_filter (served_entry file_exists s) ids))" if "ids \<noteq> []"
    using that
    by (simp add: post_download_bulk_def Let_def filter_valid_empty archive_files_served)
  have b: "post_download_bulk file_exists s (Some ids) = claimed_archive s ids"
    if "ids \<noteq> []"
      "\<forall>e \<in> set (List.map_filter (claimed_entry s) ids). fst e \<noteq> [] \<and> file_exists (fst e)"
    using a [OF that(1)] served_all [OF that(2)] by (simp add: claimed_archive_def Let_def)
  show ?thesis using a b by (simp add: post_download_bulk_def)
qed

theorem download_bulk_entries_witness:
  "map_option status (job two_jobs 1) = Some ''completed'' \<and>
   map_option status (job two_jobs 2) = Some ''failed'' \<and>
   job two_jobs 3 = None \<and>
   post_download_bulk (\<lambda>p. True) (store (exec two_jobs)) (Some [Some 1, Some 2, Some 3]) =
     Zip_archive [(''1_1700.mp3'', ''Song_1.mp3'')] \<and>
   post_download_bulk (\<lambda>p. True) (store (exec two_jobs)) (Some [Some 2, Some 3, None]) =
     Failure 404 ''No valid files found for download''"
proof -
  have a: "map_option status (job two_jobs 1) = Some ''completed''"
    "map_option status (job two_jobs 2) = Some ''failed''" "job two_jobs 3 = None"
    by code_simp+
  have b: "List.map_filter (claimed_entry (store (exec two_jobs))) [Some 1, Some 2, Some 3] =
      [(''1_1700.mp3'', ''Song_1.mp3'')]"
    by code_simp
  have c: "List.map_filter (served_entry (\<lambda>p. True) (store (exec two_jobs))) [Some 1, Some 2, Some 3] =
      [(''1_1700.mp3'', ''Song_1.mp3'')]"
    by code_simp
  have d: "List.map_filter (claimed_entry (store (exec two_jobs))) [Some 2, Some 3, None] = []"
    by code_simp
  from download_bulk_entries [of "\<lambda>p. True" "store (exec two_jobs)" "[Some 1, Some 2, Some 3]"]
    download_bulk_entries [of "\<lambda>p. True" "store (exec two_jobs)" "[Some 2, Some 3, None]"]
    a b c d
  show ?thesis by simp
qed

text \<open>
  C6 as stated fails: the file of a completed job may be gone, and then the archive has
  no entry for its identifier (and is sent all the same); and for an empty list of
  identifiers the answer is the validation error, not the not-found one.
\<close>

theorem download_bulk_counterexample:
  "claimed_archive (store (exec two_jobs)) [Some 1, Some 2, Some 3] =
     Zip_archive [(''1_1700.mp3'', ''Song_1.mp3'')] \<and>
   post_download_bulk (\<lambda>p. False) (store (exec two_jobs)) (Some [Some 1, Some 2, Some 3]) =
     Zip_archive [] \<and>
   claimed_archive (store (exec two_jobs)) [] = Failure 404 ''No valid files found for download'' \<and>
   post_download_bulk (\<lambda>p. True) (store (exec two_jobs)) (Some []) =
     Failure 400 ''Invalid file IDs''"
  by code_simp

section \<open>Bulk submission\<close>

text \<open>
  C1. The handler validates a URL just before it creates the job of that URL, inside
  the loop. When the first of two URLs passes and the second does not, the answer is the
  validation error for the second, but the job of the first has been created and its
  pipeline started.
\<close>

theorem bulk_keeps_earlier_jobs:
  assumes "is_url u1" "is_url u2" "validateURL u1" "\<not> validateURL u2"
  shows "post_conversions_bulk is_url validateURL s [(u1, t1), (u2, t2)] =
     (Failure 400 (''Invalid YouTube URL: '' @ u2), snd (createConversion s u1 t1),
      [currentConversionId s]) \<and>
     getConversion (snd (createConversion s u1 t1)) (currentConversionId s) =
       Some (fst (createConversion s u1 t1)) \<and>
     url (fst (createConversion s u1 t1)) = u1"
  using assms
  by (simp add: post_conversions_bulk_def bulkConversionSchema_def split_beta id_create
      get_create_same)
    (simp add: createConversion_def Let_def)

theorem bulk_keeps_earlier_jobs_witness:
  "post_conversions_bulk (\<lambda>u. True) (\<lambda>u. u = ''https://youtu.be/dQw4w9WgXcQ'') new_MemStorage
     [(''https://youtu.be/dQw4w9WgXcQ'', 7), (''https://example.com/x'', 8)] =
   (Failure 400 ''Invalid YouTube URL: https://example.com/x'',
    \<lparr>conversions = [(1, \<lparr>conv_id = 1, url = ''https://youtu.be/dQw4w9WgXcQ'', title = None,
        status = ''pending'', progress = Some 0, filePath = None, fileName = None,
        fileSize = None, errorMessage = None, createdAt = Some 7, completedAt = None\<rparr>)],
      currentConversionId = 2\<rparr>,
    [1]) \<and>
   map url (getAllConversions (snd (createConversion new_MemStorage ''https://youtu.be/dQw4w9WgXcQ'' 7))) =
     [''https://youtu.be/dQw4w9WgXcQ'']"
proof -
  have a: "snd (createConversion new_MemStorage ''https://youtu.be/dQw4w9WgXcQ'' 7) =
      \<lparr>conversions = [(1, \<lparr>conv_id = 1, url = ''https://youtu.be/dQw4w9WgXcQ'', title = None,
        status = ''pending'', progress = Some 0, filePath = None, fileName = None,
        fileSize = None, errorMessage = None, createdAt = Some 7, completedAt = None\<rparr>)],
      currentConversionId = 2\<rparr>"
    by code_simp
  have b: "currentConversionId new_MemStorage = 1" by code_simp
  have c: "map url (getAllConversions (snd (createConversion new_MemStorage ''https://youtu.be/dQw4w9WgXcQ'' 7))) =
     [''https://youtu.be/dQw4w9WgXcQ'']" by code_simp
  from bulk_keeps_earlier_jobs [of "\<lambda>u. True" "''https://youtu.be/dQw4w9WgXcQ''" "''https://example.com/x''"
      "\<lambda>u. u = ''https://youtu.be/dQw4w9WgXcQ''" new_MemStorage 7 8] a b c
  show ?thesis by simp
qed

end
